theory Spec2Isabelle
  imports Complex_Main "HOL-Library.Sublist"
begin

section \<open>JavaScript values\<close>

text \<open>
  A JavaScript number is a finite value, one of the two infinities, or NaN. Finite values
  are modelled as reals and signed zero is left out. In the protein classifier, whose
  score depends on the rounding of IEEE doubles, the rounding is the parameter \<open>fl\<close>:
  \<open>fl x\<close> is the double nearest to the real \<open>x\<close>, an infinity when \<open>x\<close> is out of range. The
  product of two doubles \<open>a\<close> and \<open>b\<close> is \<open>fl (a * b)\<close>, and a decimal numeral \<open>q\<close> is read as
  \<open>fl q\<close>. The growth series is computed in exact arithmetic: its rounding errors are far
  below the margins of the bounds proved about it.
\<close>

datatype jsnum = Fin real | PosInf | NegInf | NaN

text \<open>
  The payload is the body of the HTTP response: a parsed JSON value. \<open>JUndefined\<close> is
  what reading a missing property gives. An object is the list of its own properties,
  read from the front.
\<close>

datatype json =
    JUndefined
  | JNull
  | JBool bool
  | JNum jsnum
  | JStr string
  | JArr "json list"
  | JObj "(string \<times> json) list"

datatype js_error = TypeError

text \<open>\<^verbatim>\<open>Number.isFinite(x)\<close>\<close>

fun isFinite :: "jsnum \<Rightarrow> bool" where
  "isFinite (Fin r) = True"
| "isFinite PosInf = False"
| "isFinite NegInf = False"
| "isFinite NaN = False"

text \<open>\<^verbatim>\<open>a > b\<close> on numbers: false as soon as one side is NaN.\<close>

fun js_gt :: "jsnum \<Rightarrow> jsnum \<Rightarrow> bool" where
  "js_gt NaN b = False"
| "js_gt a NaN = False"
| "js_gt (Fin a) (Fin b) = (a > b)"
| "js_gt (Fin a) PosInf = False"
| "js_gt (Fin a) NegInf = True"
| "js_gt PosInf PosInf = False"
| "js_gt PosInf b = True"
| "js_gt NegInf b = False"

text \<open>\<^verbatim>\<open>x || 0\<close> on a number: NaN and zero are falsy.\<close>

fun or_zero :: "jsnum \<Rightarrow> jsnum" where
  "or_zero NaN = Fin 0"
| "or_zero (Fin r) = (if r = 0 then Fin 0 else Fin r)"
| "or_zero x = x"

text \<open>
  Whether turning a value into a primitive throws. An object parsed from JSON inherits
  \<^verbatim>\<open>valueOf\<close>, which returns the object itself, so the conversion falls to \<^verbatim>\<open>toString\<close>; an
  own property of that name is never callable in parsed JSON, and then nothing is left to
  call: a TypeError. An array is joined, which converts every element in the same way.
\<close>

fun coerce_throws :: "json \<Rightarrow> bool" where
  "coerce_throws (JObj kvs) = (map_of kvs ''toString'' \<noteq> None)"
| "coerce_throws (JArr xs) = (\<exists>x\<in>set xs. coerce_throws x)"
| "coerce_throws v = False"

text \<open>
  \<^verbatim>\<open>Number(v)\<close>. For undefined, null, booleans, numbers and plain objects the language
  fixes the result. A string is parsed as a numeric literal and an array is first joined
  into a string; that parsing is the language's, not this repository's, and is the
  parameter \<open>sn\<close> of every function that coerces.
\<close>

fun Number_js :: "(json \<Rightarrow> jsnum) \<Rightarrow> json \<Rightarrow> js_error + jsnum" where
  "Number_js sn JUndefined = Inr NaN"
| "Number_js sn JNull = Inr (Fin 0)"
| "Number_js sn (JBool b) = Inr (Fin (if b then 1 else 0))"
| "Number_js sn (JNum n) = Inr n"
| "Number_js sn (JStr s) = Inr (sn (JStr s))"
| "Number_js sn (JArr xs) = (if coerce_throws (JArr xs) then Inl TypeError else Inr (sn (JArr xs)))"
| "Number_js sn (JObj kvs) = (if coerce_throws (JObj kvs) then Inl TypeError else Inr NaN)"

text \<open>\<^verbatim>\<open>v == null\<close>: the values that \<^verbatim>\<open>??\<close> and \<^verbatim>\<open>?.\<close> skip.\<close>

fun is_nullish :: "json \<Rightarrow> bool" where
  "is_nullish JUndefined = True"
| "is_nullish JNull = True"
| "is_nullish v = False"

text \<open>\<^verbatim>\<open>a ?? b\<close>\<close>

definition nullish :: "json \<Rightarrow> json \<Rightarrow> json" where
  "nullish a b = (if is_nullish a then b else a)"

text \<open>
  \<^verbatim>\<open>v.k\<close> for the keys this program reads (none of them is a property of a prototype):
  a TypeError on null and undefined, the own property of an object, undefined on
  anything else.
\<close>

fun get_prop :: "json \<Rightarrow> string \<Rightarrow> js_error + json" where
  "get_prop JUndefined k = Inl TypeError"
| "get_prop JNull k = Inl TypeError"
| "get_prop (JObj kvs) k = Inr (case map_of kvs k of None \<Rightarrow> JUndefined | Some v \<Rightarrow> v)"
| "get_prop v k = Inr JUndefined"

text \<open>\<^verbatim>\<open>v?.k\<close>\<close>

definition opt_prop :: "json \<Rightarrow> string \<Rightarrow> js_error + json" where
  "opt_prop v k = (if is_nullish v then Inr JUndefined else get_prop v k)"

text \<open>Sequencing of computations that may throw.\<close>

fun bind_err :: "js_error + 'a \<Rightarrow> ('a \<Rightarrow> js_error + 'b) \<Rightarrow> js_error + 'b" where
  "bind_err (Inl e) f = Inl e"
| "bind_err (Inr v) f = f v"

text \<open>
  \<^verbatim>\<open>o.k1 ?? o.k2 ?? ... ?? o.kn\<close>: a later property is read only when all the earlier
  ones are nullish.
\<close>

fun coalesce_props :: "json \<Rightarrow> string list \<Rightarrow> js_error + json" where
  "coalesce_props obj [] = Inr JUndefined"
| "coalesce_props obj [k] = get_prop obj k"
| "coalesce_props obj (k # ks) =
     bind_err (get_prop obj k) (\<lambda>v. if is_nullish v then coalesce_props obj ks else Inr v)"

text \<open>
  \<^verbatim>\<open>Number(x.toFixed(d))\<close> for a finite \<open>x\<close>: the nearest multiple of \<open>10^-d\<close>, a tie
  going away from zero. From \<open>10^21\<close> on, \<^verbatim>\<open>toFixed\<close> prints the number as \<^verbatim>\<open>String\<close> does
  and the number comes back unchanged.
\<close>

definition toFixed :: "nat \<Rightarrow> real \<Rightarrow> real" where
  "toFixed d x =
     (if \<bar>x\<bar> \<ge> 10 ^ 21 then x
      else if x < 0 then - (of_int \<lfloor>- x * 10 ^ d + 1 / 2\<rfloor> / 10 ^ d)
      else of_int \<lfloor>x * 10 ^ d + 1 / 2\<rfloor> / 10 ^ d)"

text \<open>
  \<^verbatim>\<open>Number(x.toFixed(d))\<close> for any number \<open>x\<close>, with the rounding of doubles: an infinity
  or NaN is printed by name and read back; a finite \<open>x\<close> is rounded in exact arithmetic to
  \<open>d\<close> decimals and the numeral is read back as a double.
\<close>

fun Number_toFixed :: "(real \<Rightarrow> jsnum) \<Rightarrow> nat \<Rightarrow> jsnum \<Rightarrow> jsnum" where
  "Number_toFixed fl d (Fin x) = (if \<bar>x\<bar> \<ge> 10 ^ 21 then Fin x else fl (toFixed d x))"
| "Number_toFixed fl d v = v"

section \<open>Domain types\<close>

record SiteMetrics =
  temperature :: real
  ph :: real
  radiation :: real
  salinity :: real

datatype ProteinLevel = Low | Medium | High

record ProteinPrediction =
  level :: ProteinLevel
  score :: jsnum

record GrowthPoint =
  day :: nat
  doublingTime :: real

definition IDEAL_METRICS :: SiteMetrics where
  "IDEAL_METRICS = \<lparr>temperature = 30, ph = 9.0, radiation = 16, salinity = 3\<rparr>"

section \<open>Metrics resolver\<close>

text \<open>\<^verbatim>\<open>analysisRoot?.analysis ?? analysisRoot ?? {}\<close>\<close>

definition inner_of :: "json \<Rightarrow> js_error + json" where
  "inner_of analysisRoot =
     bind_err (opt_prop analysisRoot ''analysis'')
       (\<lambda>a. Inr (nullish a (nullish analysisRoot (JObj []))))"

text \<open>\<^verbatim>\<open>inner.k ?? {}\<close>\<close>

definition section_of :: "json \<Rightarrow> string \<Rightarrow> js_error + json" where
  "section_of inner k = bind_err (get_prop inner k) (\<lambda>v. Inr (nullish v (JObj [])))"

text \<open>
  The four constants \<^verbatim>\<open>temperature\<close>, \<^verbatim>\<open>radiation\<close>, \<^verbatim>\<open>ph\<close>, \<^verbatim>\<open>salinity\<close> of
  \<^verbatim>\<open>extractSiteMetrics\<close>, in the order the source computes them: each value is read and
  coerced before the next one is read.
\<close>

definition site_readings ::
  "(json \<Rightarrow> jsnum) \<Rightarrow> json \<Rightarrow> js_error + (jsnum \<times> jsnum \<times> jsnum \<times> jsnum)" where
  "site_readings sn analysisRoot =
     bind_err (inner_of analysisRoot) (\<lambda>inner.
     bind_err (section_of inner ''climate'') (\<lambda>climate.
     bind_err (section_of inner ''water_profile'') (\<lambda>water.
     bind_err (coalesce_props climate [''temperature'', ''avg_temperature'', ''T2M'']) (\<lambda>tv.
     bind_err (Number_js sn tv) (\<lambda>temperature.
     bind_err (coalesce_props climate [''solar_radiation'', ''radiation'', ''ALLSKY_SFC_SW_DWN'']) (\<lambda>rv.
     bind_err (Number_js sn rv) (\<lambda>radiation.
     bind_err (coalesce_props water [''initial_pH'', ''ph'', ''pH'']) (\<lambda>pv.
     bind_err (Number_js sn pv) (\<lambda>ph.
     bind_err (coalesce_props water [''salinity'', ''SALINITY'']) (\<lambda>sv.
     bind_err (Number_js sn sv) (\<lambda>salinity.
       Inr (temperature, radiation, ph, salinity))))))))))))"

definition extractSiteMetrics :: "(json \<Rightarrow> jsnum) \<Rightarrow> json \<Rightarrow> js_error + SiteMetrics option" where
  "extractSiteMetrics sn analysisRoot =
     bind_err (site_readings sn analysisRoot) (\<lambda>(temperature, radiation, ph, salinity).
       case (temperature, radiation, ph, salinity) of
         (Fin t, Fin r, Fin p, Fin s) \<Rightarrow>
           Inr (Some \<lparr>temperature = t, ph = p, radiation = r, salinity = s\<rparr>)
       | _ \<Rightarrow> Inr None)"

section \<open>Protein classifier\<close>

definition bands :: "ProteinLevel list" where
  "bands = [Low, Medium, High]"

text \<open>\<^verbatim>\<open>xs[i]\<close>: undefined out of range.\<close>

definition js_nth :: "json list \<Rightarrow> nat \<Rightarrow> json" where
  "js_nth xs i = (if i < length xs then xs ! i else JUndefined)"

text \<open>
  The callback of \<^verbatim>\<open>confidence.forEach\<close>, on the pair \<open>(maxIdx, maxVal)\<close>. A throw in
  one call ends the loop: the later calls pass the error on.
\<close>

definition argmax_step ::
  "(json \<Rightarrow> jsnum) \<Rightarrow> json \<times> nat \<Rightarrow> js_error + nat \<times> jsnum \<Rightarrow> js_error + nat \<times> jsnum" where
  "argmax_step sn = (\<lambda>(v, idx) acc.
     bind_err acc (\<lambda>(maxIdx, maxVal).
     bind_err (Number_js sn v) (\<lambda>num.
       Inr (if isFinite num \<and> js_gt num maxVal then (idx, num) else (maxIdx, maxVal)))))"

text \<open>The loop: every element with its index, from the front.\<close>

definition argmax_loop :: "(json \<Rightarrow> jsnum) \<Rightarrow> json list \<Rightarrow> js_error + nat \<times> jsnum" where
  "argmax_loop sn confidence =
     bind_err (Number_js sn (js_nth confidence 0)) (\<lambda>first.
       fold (argmax_step sn) (zip confidence [0..<length confidence]) (Inr (0, or_zero first)))"

text \<open>
  The body of the first tier, for an array \<open>confidence\<close>. The product \<^verbatim>\<open>maxVal * 100\<close> is a
  product of doubles.
\<close>

definition confidence_tier ::
  "(json \<Rightarrow> jsnum) \<Rightarrow> (real \<Rightarrow> jsnum) \<Rightarrow> json list \<Rightarrow> js_error + ProteinPrediction" where
  "confidence_tier sn fl confidence =
     bind_err (argmax_loop sn confidence) (\<lambda>(maxIdx, maxVal).
       let score = (case maxVal of Fin m \<Rightarrow> fl (m * 100) | _ \<Rightarrow> Fin 0) in
       Inr \<lparr>level = bands ! (min maxIdx (length bands - 1)), score = Number_toFixed fl 1 score\<rparr>)"

text \<open>\<^verbatim>\<open>Array.isArray(confidence) && confidence.length >= 3\<close>\<close>

fun tier1_applies :: "json \<Rightarrow> bool" where
  "tier1_applies (JArr xs) = (3 \<le> length xs)"
| "tier1_applies v = False"

fun arr_items :: "json \<Rightarrow> json list" where
  "arr_items (JArr xs) = xs"
| "arr_items v = []"

text \<open>The second and third tiers: what follows the first \<^verbatim>\<open>if\<close> of the function.\<close>

definition lower_tiers :: "(json \<Rightarrow> jsnum) \<Rightarrow> json \<Rightarrow> json \<Rightarrow> js_error + ProteinPrediction option" where
  "lower_tiers sn inner biomass =
     bind_err (get_prop biomass ''biomass_prediction'') (\<lambda>bp.
     bind_err (Number_js sn bp) (\<lambda>raw.
       case raw of
         Fin v \<Rightarrow>
           Inr (Some \<lparr>level = (if v < 30 then Low else if v < 70 then Medium else High),
                      score = Fin 70\<rparr>)
       | _ \<Rightarrow>
           bind_err (get_prop inner ''cultivation_status'') (\<lambda>status.
             if status = JStr ''INVALID'' then Inr (Some \<lparr>level = Low, score = Fin 60\<rparr>)
             else if status = JStr ''MARGINAL'' then Inr (Some \<lparr>level = Medium, score = Fin 65\<rparr>)
             else if status = JStr ''VALID'' then Inr (Some \<lparr>level = High, score = Fin 80\<rparr>)
             else Inr None)))"

definition extractProteinPrediction ::
  "(json \<Rightarrow> jsnum) \<Rightarrow> (real \<Rightarrow> jsnum) \<Rightarrow> json \<Rightarrow> js_error + ProteinPrediction option" where
  "extractProteinPrediction sn fl analysisRoot =
     bind_err (inner_of analysisRoot) (\<lambda>inner.
     bind_err (section_of inner ''biomass_prediction'') (\<lambda>biomass.
     bind_err (get_prop biomass ''confidence'') (\<lambda>confidence.
       if tier1_applies confidence
       then bind_err (confidence_tier sn fl (arr_items confidence)) (\<lambda>prediction. Inr (Some prediction))
       else lower_tiers sn inner biomass)))"

text \<open>
  Vocabulary of the claims: the value found at \<open>biomass_prediction.k\<close> of a payload, and
  at \<open>k\<close> of its inner object, along the path the classifier follows.
\<close>

definition biomass_field :: "json \<Rightarrow> string \<Rightarrow> js_error + json" where
  "biomass_field analysisRoot k =
     bind_err (inner_of analysisRoot) (\<lambda>inner.
     bind_err (section_of inner ''biomass_prediction'') (\<lambda>biomass. get_prop biomass k))"


text \<open>A payload that is an object, as opposed to null, a number, a boolean, a string or an array.\<close>

fun is_object :: "json \<Rightarrow> bool" where
  "is_object (JObj kvs) = True"
| "is_object v = False"

section \<open>Growth series synthesizer\<close>

definition DEFAULT_GROWTH_SERIES :: "GrowthPoint list" where
  "DEFAULT_GROWTH_SERIES =
     map (\<lambda>idx. \<lparr>day = idx + 1, doublingTime = 2.1 + sin (real idx / 2) * 0.25\<rparr>) [0..<14]"

text \<open>The constant \<^verbatim>\<open>baseDoubling\<close> of \<^verbatim>\<open>generateGrowthSeriesFromMetrics\<close>.\<close>

definition baseDoubling :: "SiteMetrics \<Rightarrow> real" where
  "baseDoubling metrics =
     (let tempScore = temperature metrics;
          radiationScore = radiation metrics;
          tempDelta = \<bar>tempScore - temperature IDEAL_METRICS\<bar>;
          radDelta = \<bar>radiationScore - radiation IDEAL_METRICS\<bar>;
          penalty = tempDelta * 0.03 + radDelta * 0.02
      in max 1.2 (min 3.5 (1.8 + penalty)))"

fun generateGrowthSeriesFromMetrics :: "SiteMetrics option \<Rightarrow> GrowthPoint list" where
  "generateGrowthSeriesFromMetrics None = DEFAULT_GROWTH_SERIES"
| "generateGrowthSeriesFromMetrics (Some metrics) =
     map (\<lambda>idx.
            let day = idx + 1;
                seasonal = sin (real day / 2.5) * 0.1;
                value = toFixed 2 (baseDoubling metrics + seasonal)
            in \<lparr>day = day, doublingTime = value\<rparr>) [0..<14]"

section \<open>Text\<close>

text \<open>
  A JavaScript string is a sequence of UTF-16 code units; \<open>length\<close> counts them, and the
  character classes of regular expressions are sets of them. \<open>js\<close> writes an ASCII
  literal as code units.
\<close>

type_synonym jsstring = "nat list"

definition js :: "string \<Rightarrow> jsstring" where
  "js s = map of_char s"

definition star :: nat where "star = 42"
definition hyphen :: nat where "hyphen = 45"
definition dot :: nat where "dot = 46"
definition rparen :: nat where "rparen = 41"
definition underscore :: nat where "underscore = 95"
definition newline :: nat where "newline = 10"

text \<open>Line terminators: LF, CR, LS, PS. The \<^verbatim>\<open>.\<close> of a regular expression matches any other code unit.\<close>

definition is_line_terminator :: "nat \<Rightarrow> bool" where
  "is_line_terminator c = (c = 10 \<or> c = 13 \<or> c = 8232 \<or> c = 8233)"

text \<open>White space and line terminators: what \<^verbatim>\<open>trim\<close> removes and \<^verbatim>\<open>\s\<close> matches.\<close>

definition is_space :: "nat \<Rightarrow> bool" where
  "is_space c =
     (c = 9 \<or> c = 11 \<or> c = 12 \<or> c = 32 \<or> c = 160 \<or> c = 5760 \<or> (8192 \<le> c \<and> c \<le> 8202) \<or>
      c = 8239 \<or> c = 8287 \<or> c = 12288 \<or> c = 65279 \<or> is_line_terminator c)"

text \<open>\<^verbatim>\<open>\d\<close> and \<^verbatim>\<open>[0-9]\<close>\<close>

definition is_digit :: "nat \<Rightarrow> bool" where
  "is_digit c = (48 \<le> c \<and> c \<le> 57)"

text \<open>\<^verbatim>\<open>\w\<close>: letters, digits and the underscore.\<close>

definition is_word :: "nat \<Rightarrow> bool" where
  "is_word c = ((65 \<le> c \<and> c \<le> 90) \<or> (97 \<le> c \<and> c \<le> 122) \<or> is_digit c \<or> c = underscore)"

definition trim :: "jsstring \<Rightarrow> jsstring" where
  "trim s = rev (dropWhile is_space (rev (dropWhile is_space s)))"

text \<open>\<^verbatim>\<open>s.split(sep)\<close> for a separator of one code unit.\<close>

fun split_on :: "nat \<Rightarrow> jsstring \<Rightarrow> jsstring list" where
  "split_on sep [] = [[]]"
| "split_on sep (c # cs) =
     (if c = sep then [] # split_on sep cs
      else (case split_on sep cs of [] \<Rightarrow> [[c]] | l # ls \<Rightarrow> (c # l) # ls))"

subsection \<open>Text normalizer\<close>

text \<open>
  The rest of a match of \<^verbatim>\<open>\*\*(.*?)\*\*\<close> once the opening \<^verbatim>\<open>**\<close> is read: the lazy
  group takes one more code unit, never a line terminator, only when the closing \<^verbatim>\<open>**\<close>
  does not stand here. The result is the group and what follows the match.
\<close>

fun find_close :: "jsstring \<Rightarrow> (jsstring \<times> jsstring) option" where
  "find_close [] = None"
| "find_close (c # cs) =
     (if c = star \<and> (case cs of [] \<Rightarrow> False | d # ds \<Rightarrow> d = star) then Some ([], tl cs)
      else if is_line_terminator c then None
      else map_option (\<lambda>(g, r). (c # g, r)) (find_close cs))"

text \<open>A match of the whole expression at the front of the string.\<close>

fun match_bold :: "jsstring \<Rightarrow> (jsstring \<times> jsstring) option" where
  "match_bold (c # d # ds) = (if c = star \<and> d = star then find_close ds else None)"
| "match_bold s = None"

lemma find_close_shorter: "find_close s = Some (g, r) \<Longrightarrow> length r < length s"
proof (induction s arbitrary: g r)
  case Nil
  then show ?case by simp
next
  case (Cons c cs)
  then show ?case
    by (cases cs) (auto split: if_splits)
qed

lemma match_bold_shorter: "match_bold s = Some (g, r) \<Longrightarrow> length r < length s"
proof (cases s rule: match_bold.cases)
  case (1 c d ds)
  assume "match_bold s = Some (g, r)"
  with 1 have "find_close ds = Some (g, r)" by (simp split: if_splits)
  from find_close_shorter[OF this] 1 show ?thesis by simp
qed simp_all

text \<open>
  \<^verbatim>\<open>input.replace(/\*\*(.*?)\*\*/g, "$1")\<close>: the matches are searched from the left, each
  search starting where the previous match ended, and each match is replaced by its group.
\<close>

function replace_bold :: "jsstring \<Rightarrow> jsstring" where
  "replace_bold [] = []"
| "replace_bold (c # cs) =
     (case match_bold (c # cs) of
        Some (g, r) \<Rightarrow> g @ replace_bold r
      | None \<Rightarrow> c # replace_bold cs)"
  by pat_completeness auto
termination
  by (relation "measure length") (auto dest: match_bold_shorter)

text \<open>The argument of \<^verbatim>\<open>cleanMarkdownBold\<close>: \<^verbatim>\<open>string | undefined | null\<close>.\<close>

datatype str_arg = SUndefined | SNull | SStr jsstring

fun cleanMarkdownBold :: "str_arg \<Rightarrow> jsstring" where
  "cleanMarkdownBold SUndefined = []"
| "cleanMarkdownBold SNull = []"
| "cleanMarkdownBold (SStr input) = (if input = [] then [] else replace_bold input)"

subsection \<open>Bullet extractor\<close>

text \<open>\<^verbatim>\<open>line.startsWith("*") || line.startsWith("-") || /^[0-9]+\./.test(line)\<close>\<close>

definition isBullet :: "jsstring \<Rightarrow> bool" where
  "isBullet line =
     (take 1 line = [star] \<or> take 1 line = [hyphen] \<or>
      (takeWhile is_digit line \<noteq> [] \<and> take 1 (dropWhile is_digit line) = [dot]))"

text \<open>The class \<^verbatim>\<open>[\*\-\d\.\)\s]\<close>\<close>

definition is_marker :: "nat \<Rightarrow> bool" where
  "is_marker c = (c = star \<or> c = hyphen \<or> is_digit c \<or> c = dot \<or> c = rparen \<or> is_space c)"

text \<open>\<^verbatim>\<open>line.replace(/^[\*\-\d\.\)\s]+/, "").trim()\<close>\<close>

definition strip_markers :: "jsstring \<Rightarrow> jsstring" where
  "strip_markers line = trim (dropWhile is_marker line)"

definition extractKeyPoints :: "jsstring \<Rightarrow> jsstring list" where
  "extractKeyPoints cleaned =
     (if cleaned = [] then []
      else
        let rawLines = filter (\<lambda>line. length line > 0) (map trim (split_on newline cleaned));
            cleanedBullets =
              filter (\<lambda>line. length line \<ge> 5) (map strip_markers (filter isBullet rawLines));
            fallbackLines = filter (\<lambda>line. length line \<ge> 5) (map strip_markers rawLines);
            source = (if length cleanedBullets > 0 then cleanedBullets else fallbackLines)
        in take 6 source)"

subsection \<open>Report file name\<close>

text \<open>A code unit that \<^verbatim>\<open>[^\w\-]\<close> does not match.\<close>

definition is_safe :: "nat \<Rightarrow> bool" where
  "is_safe c = (is_word c \<or> c = hyphen)"

text \<open>
  \<^verbatim>\<open>locationLabel.replace(/[^\w\-]+/g, "_")\<close>: the greedy \<^verbatim>\<open>+\<close> takes a whole run of
  unsafe code units into one match.
\<close>

function sanitize :: "jsstring \<Rightarrow> jsstring" where
  "sanitize [] = []"
| "sanitize (c # cs) =
     (if is_safe c then c # sanitize cs
      else underscore # sanitize (dropWhile (\<lambda>d. \<not> is_safe d) cs))"
  by pat_completeness auto
termination
  by (relation "measure length") (auto simp: length_dropWhile_le less_Suc_eq_le)

text \<open>The argument of \<^verbatim>\<open>doc.save\<close> for a location label.\<close>

definition report_filename :: "jsstring \<Rightarrow> jsstring" where
  "report_filename locationLabel =
     (let safeName = sanitize locationLabel
      in js ''spirulina_site_report_'' @ (if safeName = [] then js ''site'' else safeName)
           @ js ''.pdf'')"

text \<open>The state of the dashboard that \<^verbatim>\<open>handleDownloadReport\<close> reads.\<close>

record Dashboard =
  locationText :: jsstring
  reportLocationLabel :: jsstring
  phdReport :: jsstring

text \<open>
  \<^verbatim>\<open>reportLocationLabel || locationText || "Spirulina cultivation site"\<close>, and
  \<^verbatim>\<open>handleDownloadReport\<close> as the name of the file it saves; \<open>None\<close> when it returns
  before saving. The pages it draws are the PDF library's and are left out.
\<close>

definition locationLabel :: "Dashboard \<Rightarrow> jsstring" where
  "locationLabel st =
     (if reportLocationLabel st \<noteq> [] then reportLocationLabel st
      else if locationText st \<noteq> [] then locationText st
      else js ''Spirulina cultivation site'')"

definition handleDownloadReport :: "Dashboard \<Rightarrow> jsstring option" where
  "handleDownloadReport st =
     (let cleanedReport = cleanMarkdownBold (SStr (phdReport st)) in
      if cleanedReport = [] \<and> phdReport st = [] then None
      else Some (report_filename (locationLabel st)))"

text \<open>The file name as the specification words it: every unsafe code unit becomes an underscore.\<close>

definition replace_each :: "jsstring \<Rightarrow> jsstring" where
  "replace_each label = map (\<lambda>c. if is_safe c then c else underscore) label"

section \<open>Vocabulary of the specification\<close>

subsection \<open>Metrics\<close>


text \<open>
  The four values the resolver coerces, before coercion: for each field the first of its
  keys that is defined. Reading them never throws.
\<close>

definition resolved_values :: "json \<Rightarrow> js_error + (json \<times> json \<times> json \<times> json)" where
  "resolved_values analysisRoot =
     bind_err (inner_of analysisRoot) (\<lambda>inner.
     bind_err (section_of inner ''climate'') (\<lambda>climate.
     bind_err (section_of inner ''water_profile'') (\<lambda>water.
     bind_err (coalesce_props climate [''temperature'', ''avg_temperature'', ''T2M'']) (\<lambda>tv.
     bind_err (coalesce_props climate [''solar_radiation'', ''radiation'', ''ALLSKY_SFC_SW_DWN'']) (\<lambda>rv.
     bind_err (coalesce_props water [''initial_pH'', ''ph'', ''pH'']) (\<lambda>pv.
     bind_err (coalesce_props water [''salinity'', ''SALINITY'']) (\<lambda>sv.
       Inr (tv, rv, pv, sv))))))))"

subsection \<open>Protein classification\<close>

text \<open>The fixed ordering of the bands: index 0 is Low, index 1 is Medium, every later index is High.\<close>

definition band_of :: "nat \<Rightarrow> ProteinLevel" where
  "band_of i = (if i = 0 then Low else if i = 1 then Medium else High)"

text \<open>
  \<open>q\<close> is \<open>p\<close> rounded to one decimal place: a multiple of one tenth at distance at
  most one twentieth, a tie going away from zero.
\<close>

definition nearest_tenth :: "real \<Rightarrow> real \<Rightarrow> bool" where
  "nearest_tenth p q \<longleftrightarrow>
     (\<exists>n::int. q = of_int n / 10) \<and>
     (if 0 \<le> p then p - 1 / 20 < q \<and> q \<le> p + 1 / 20 else p - 1 / 20 \<le> q \<and> q < p + 1 / 20)"

text \<open>A number times 100, as doubles: an infinity or NaN stays what it is.\<close>

fun times_100 :: "(real \<Rightarrow> jsnum) \<Rightarrow> jsnum \<Rightarrow> jsnum" where
  "times_100 fl (Fin m) = fl (m * 100)"
| "times_100 fl v = v"

text \<open>
  What the first tier promises in the specification's words, whichever entry is taken to
  be the maximum: the level is the band of some index of the vector, and the score is
  the entry at that index times 100, rounded to one decimal place.
\<close>

definition claimed_tier1 :: "(real \<Rightarrow> jsnum) \<Rightarrow> jsnum list \<Rightarrow> ProteinPrediction \<Rightarrow> bool" where
  "claimed_tier1 fl vals p \<longleftrightarrow>
     (\<exists>i<length vals. level p = band_of i \<and>
        score p = Number_toFixed fl 1 (times_100 fl (vals ! i)))"

subsection \<open>Key points\<close>

text \<open>The lines of a text: joined by newlines they give the text back, and none holds a newline.\<close>

fun join_lines :: "jsstring list \<Rightarrow> jsstring" where
  "join_lines [] = []"
| "join_lines [l] = l"
| "join_lines (l # m # ls) = l @ newline # join_lines (m # ls)"

definition lines_of :: "jsstring \<Rightarrow> jsstring list \<Rightarrow> bool" where
  "lines_of text ls \<longleftrightarrow> ls \<noteq> [] \<and> join_lines ls = text \<and> (\<forall>l\<in>set ls. newline \<notin> set l)"

text \<open>
  \<open>t\<close> is \<open>s\<close> trimmed: \<open>s\<close> without the white space at its two ends, and \<open>t\<close> neither
  starts nor ends with white space.
\<close>

definition trimmed :: "jsstring \<Rightarrow> jsstring \<Rightarrow> bool" where
  "trimmed s t \<longleftrightarrow>
     (\<exists>a b. s = a @ t @ b \<and> (\<forall>c\<in>set a. is_space c) \<and> (\<forall>c\<in>set b. is_space c)) \<and>
     (t = [] \<or> (\<not> is_space (hd t) \<and> \<not> is_space (last t)))"

text \<open>A bullet line starts with \<^verbatim>\<open>*\<close>, with \<^verbatim>\<open>-\<close>, or with digits followed by a dot.\<close>

definition bullet_line :: "jsstring \<Rightarrow> bool" where
  "bullet_line l \<longleftrightarrow>
     (\<exists>r. l = star # r) \<or> (\<exists>r. l = hyphen # r) \<or>
     (\<exists>ds r. ds \<noteq> [] \<and> (\<forall>d\<in>set ds. is_digit d) \<and> l = ds @ dot # r)"

text \<open>\<open>t\<close> is the line \<open>l\<close> without its leading markers, trimmed.\<close>

definition unmarked :: "jsstring \<Rightarrow> jsstring \<Rightarrow> bool" where
  "unmarked l t \<longleftrightarrow>
     (\<exists>a u. l = a @ u \<and> (\<forall>c\<in>set a. is_marker c) \<and> (u = [] \<or> \<not> is_marker (hd u)) \<and> trimmed u t)"

text \<open>
  The two candidate sets: the non-empty trimmed lines of the text; of these, the
  preferred set keeps the bullet lines, strips them and keeps what has 5 code units or
  more; the fallback set does the same with every line.
\<close>

definition nonempty_lines :: "jsstring \<Rightarrow> jsstring list" where
  "nonempty_lines text = [l \<leftarrow> map trim (split_on newline text). l \<noteq> []]"

definition preferred_set :: "jsstring \<Rightarrow> jsstring list" where
  "preferred_set text = [t \<leftarrow> map strip_markers [l \<leftarrow> nonempty_lines text. bullet_line l]. 5 \<le> length t]"

definition fallback_set :: "jsstring \<Rightarrow> jsstring list" where
  "fallback_set text = [t \<leftarrow> map strip_markers (nonempty_lines text). 5 \<le> length t]"

subsection \<open>Bold spans\<close>

text \<open>
  A bold span opens at the front of \<open>s\<close>: two asterisks, text without a line terminator,
  two asterisks.
\<close>

definition starts_bold :: "jsstring \<Rightarrow> bool" where
  "starts_bold s \<longleftrightarrow>
     (\<exists>g r. s = [star, star] @ g @ [star, star] @ r \<and> (\<forall>c\<in>set g. \<not> is_line_terminator c))"

text \<open>
  Text in which no \<^verbatim>\<open>**\<close> stands and which does not end in \<^verbatim>\<open>*\<close>: the text of the
  shortest span that opens at a given place.
\<close>

fun plain :: "jsstring \<Rightarrow> bool" where
  "plain [] = True"
| "plain [c] = (c \<noteq> star)"
| "plain (c # d # r) = (\<not> (c = star \<and> d = star) \<and> plain (d # r))"

section \<open>Example inputs\<close>

text \<open>
  A payload with both a confidence vector and a numeric biomass; one whose confidence
  entries are all unreadable while the lower tiers have data; one with only a numeric
  biomass; one with all four metrics under their NASA POWER names; one without salinity.
\<close>

definition payload_both :: json where
  "payload_both = JObj [(''analysis'', JObj [(''biomass_prediction'',
      JObj [(''confidence'', JArr [JNum (Fin 0.1), JNum (Fin 0.1), JNum (Fin 0.8), JNum (Fin 0.9)]),
            (''biomass_prediction'', JNum (Fin 25))])])]"


definition payload_numeric :: json where
  "payload_numeric = JObj [(''biomass_prediction'', JObj [(''biomass_prediction'', JNum (Fin 25))])]"





definition payload_infinite_first :: json where
  "payload_infinite_first = JObj [(''biomass_prediction'',
      JObj [(''confidence'', JArr [JNum PosInf, JNum (Fin 0.5), JNum (Fin 0.2)])])]"

text \<open>Metrics far from the ideal envelope: a temperature of 100 degrees.\<close>

definition metrics_hot :: SiteMetrics where
  "metrics_hot = \<lparr>temperature = 100, ph = 9, radiation = 16, salinity = 3\<rparr>"

text \<open>A dashboard with a report loaded and a typed location.\<close>

definition dashboard_chennai :: Dashboard where
  "dashboard_chennai =
     \<lparr>locationText = js ''Chennai, India'', reportLocationLabel = [], phdReport = js ''x''\<rparr>"

text \<open>
  A report with prose, indented bullets, a bullet too short to keep and a numbered item;
  a report of prose only; a report of eight numbered items.
\<close>

definition report_mixed :: jsstring where
  "report_mixed = js ''Summary of findings\<newline>  * Improve aeration  \<newline>- ok\<newline>2. Increase pH buffering\<newline>plain closing remark''"

definition report_prose :: jsstring where
  "report_prose = js ''Short.\<newline>   A fine long line about site conditions.  ''"

definition report_eight :: jsstring where
  "report_eight = js ''1. aaaaa\<newline>2. bbbbb\<newline>3. ccccc\<newline>4. ddddd\<newline>5. eeeee\<newline>6. fffff\<newline>7. ggggg\<newline>8. hhhhh''"

section \<open>Reading properties never throws\<close>

lemma inner_of_total: "\<exists>v. inner_of r = Inr v \<and> \<not> is_nullish v"
  by (cases r) (auto simp: inner_of_def opt_prop_def nullish_def split: option.splits)


lemma section_of_total: "\<not> is_nullish v \<Longrightarrow> \<exists>w. section_of v k = Inr w \<and> \<not> is_nullish w"
  by (cases v) (auto simp: section_of_def nullish_def)


lemma Number_js_throws: "Number_js sn v = Inl TypeError \<longleftrightarrow> coerce_throws v"
  by (cases v) auto

lemma Number_js_cases:
  "(coerce_throws v \<and> Number_js sn v = Inl TypeError) \<or> (\<not> coerce_throws v \<and> (\<exists>n. Number_js sn v = Inr n))"
  by (cases v) auto

lemma Number_js_undefined: "Number_js sn JUndefined = Inr NaN"
  by simp

lemma non_object_inner: "\<not> is_object p \<Longrightarrow> \<exists>v. inner_of p = Inr v \<and> (\<forall>k. get_prop v k = Inr JUndefined)"
  by (cases p) (auto simp: inner_of_def opt_prop_def nullish_def)

lemma empty_section: "get_prop v k = Inr JUndefined \<Longrightarrow> section_of v k = Inr (JObj [])"
  by (simp add: section_of_def nullish_def)

section \<open>Payloads that are not objects\<close>

text \<open>
  C8. A payload that is not an object (null, undefined, a number, a boolean, a string or
  an array) makes neither \<open>extractSiteMetrics\<close> nor \<open>extractProteinPrediction\<close> throw:
  both return absent, which is also what they return for the object with no fields.
\<close>

theorem non_object_payload_absent:
  assumes "\<not> is_object payload"
  shows "extractSiteMetrics sn payload = Inr None
       \<and> extractProteinPrediction sn fl payload = Inr None
       \<and> extractSiteMetrics sn payload = extractSiteMetrics sn (JObj [])
       \<and> extractProteinPrediction sn fl payload = extractProteinPrediction sn fl (JObj [])"
proof -
  obtain v where v: "inner_of payload = Inr v" "\<And>k. get_prop v k = Inr JUndefined"
    using non_object_inner[OF assms] by blast
  have m: "extractSiteMetrics sn payload = Inr None"
    by (simp add: extractSiteMetrics_def site_readings_def v empty_section)
  have p: "extractProteinPrediction sn fl payload = Inr None"
    by (simp add: extractProteinPrediction_def lower_tiers_def v empty_section)
  have m0: "extractSiteMetrics sn (JObj []) = Inr None"
    by (simp add: extractSiteMetrics_def site_readings_def inner_of_def opt_prop_def nullish_def section_of_def)
  have p0: "extractProteinPrediction sn fl (JObj []) = Inr None"
    by (simp add: extractProteinPrediction_def lower_tiers_def inner_of_def opt_prop_def nullish_def section_of_def)
  show ?thesis by (simp add: m p m0 p0)
qed

theorem non_object_payload_absent_witness:
  "extractSiteMetrics (\<lambda>_. Fin 1) JNull = Inr None
   \<and> extractProteinPrediction (\<lambda>_. Fin 1) Fin JNull = Inr None
   \<and> extractSiteMetrics (\<lambda>_. Fin 1) (JArr [JNum (Fin 1), JNum (Fin 2), JNum (Fin 3)]) = Inr None
   \<and> extractProteinPrediction (\<lambda>_. Fin 1) Fin (JStr ''VALID'') = Inr None
   \<and> extractProteinPrediction (\<lambda>_. Fin 1) Fin (JNum (Fin 25)) = Inr None
   \<and> extractSiteMetrics (\<lambda>_. Fin 1) (JBool True) = Inr None"
  using non_object_payload_absent[of JNull "\<lambda>_. Fin 1" Fin]
    non_object_payload_absent[of "JArr [JNum (Fin 1), JNum (Fin 2), JNum (Fin 3)]" "\<lambda>_. Fin 1" Fin]
    non_object_payload_absent[of "JStr ''VALID''" "\<lambda>_. Fin 1" Fin]
    non_object_payload_absent[of "JNum (Fin 25)" "\<lambda>_. Fin 1" Fin]
    non_object_payload_absent[of "JBool True" "\<lambda>_. Fin 1" Fin]
  by simp

section \<open>Evaluating the functions on concrete inputs\<close>

lemmas payload_eval =
  extractProteinPrediction_def extractSiteMetrics_def site_readings_def biomass_field_def
  inner_of_def opt_prop_def nullish_def section_of_def lower_tiers_def resolved_values_def
  confidence_tier_def argmax_loop_def argmax_step_def js_nth_def bands_def toFixed_def upt_conv_Cons

lemmas text_eval = js_def star_def hyphen_def dot_def rparen_def underscore_def newline_def
  is_line_terminator_def is_space_def is_digit_def is_word_def is_safe_def is_marker_def

section \<open>Metrics resolver: all or nothing\<close>









section \<open>Protein classifier: the confidence vector\<close>

lemma toFixed_1_nearest: "\<bar>p\<bar> < 10 ^ 21 \<Longrightarrow> nearest_tenth p (toFixed 1 p)"
proof -
  assume small: "\<bar>p\<bar> < 10 ^ 21"
  show ?thesis
  proof (cases "p < 0")
    case False
    let ?n = "\<lfloor>p * 10 + 1 / 2\<rfloor>"
    have q: "toFixed 1 p = of_int ?n / 10"
      using False small by (simp add: toFixed_def)
    then have ex: "\<exists>n::int. toFixed 1 p = of_int n / 10" by blast
    have "of_int ?n \<le> p * 10 + 1 / 2" by (rule of_int_floor_le)
    moreover have "p * 10 + 1 / 2 < of_int ?n + 1" by (rule real_of_int_floor_add_one_gt)
    ultimately have "p - 1 / 20 < of_int ?n / 10 \<and> of_int ?n / 10 \<le> p + 1 / 20"
      by linarith
    then have b: "p - 1 / 20 < toFixed 1 p \<and> toFixed 1 p \<le> p + 1 / 20"
      by (simp only: q)
    from False have "0 \<le> p" by simp
    with ex b show ?thesis
      unfolding nearest_tenth_def by (simp only: if_True simp_thms)
  next
    case True
    let ?n = "\<lfloor>- p * 10 + 1 / 2\<rfloor>"
    have q: "toFixed 1 p = of_int (- ?n) / 10"
      using True small by (simp add: toFixed_def)
    then have ex: "\<exists>n::int. toFixed 1 p = of_int n / 10" by blast
    have "of_int ?n \<le> - p * 10 + 1 / 2" by (rule of_int_floor_le)
    moreover have "- p * 10 + 1 / 2 < of_int ?n + 1" by (rule real_of_int_floor_add_one_gt)
    moreover have "(of_int (- ?n) :: real) = - of_int ?n" by simp
    ultimately have "p - 1 / 20 \<le> of_int (- ?n) / 10 \<and> of_int (- ?n) / 10 < p + 1 / 20"
      by linarith
    then have b: "p - 1 / 20 \<le> toFixed 1 p \<and> toFixed 1 p < p + 1 / 20"
      by (simp only: q)
    from True have "\<not> 0 \<le> p" by simp
    with ex b show ?thesis
      unfolding nearest_tenth_def by (simp only: if_False simp_thms)
  qed
qed

lemma biomass_field_unfold:
  assumes "biomass_field payload k = Inr v"
  obtains inner biomass where "inner_of payload = Inr inner"
    "section_of inner ''biomass_prediction'' = Inr biomass" "get_prop biomass k = Inr v"
proof -
  obtain inner where i: "inner_of payload = Inr inner" "\<not> is_nullish inner"
    using inner_of_total by blast
  obtain biomass where b: "section_of inner ''biomass_prediction'' = Inr biomass"
    using section_of_total[OF i(2)] by blast
  from assms have "get_prop biomass k = Inr v"
    by (simp add: biomass_field_def i b)
  with i b that show ?thesis by blast
qed

lemma extractProteinPrediction_tier1:
  assumes "biomass_field payload ''confidence'' = Inr (JArr xs)" and "3 \<le> length xs"
  shows "extractProteinPrediction sn fl payload =
     bind_err (confidence_tier sn fl xs) (\<lambda>prediction. Inr (Some prediction))"
proof -
  from assms(1) obtain inner biomass where "inner_of payload = Inr inner"
    "section_of inner ''biomass_prediction'' = Inr biomass"
    "get_prop biomass ''confidence'' = Inr (JArr xs)"
    by (rule biomass_field_unfold)
  with assms(2) show ?thesis
    by (simp add: extractProteinPrediction_def)
qed

lemma zip_upt_Cons:
  "zip (x # xs) [k..<k + length (x # xs)] = (x, k) # zip xs [Suc k..<Suc k + length xs]"
  by (simp add: upt_conv_Cons del: upt_Suc)

lemma argmax_step_error: "argmax_step sn (x, k) (Inl e) = Inl e"
  by (simp add: argmax_step_def)






lemma argmax_step_Fin:
  "Number_js sn x = Inr num \<Longrightarrow>
   argmax_step sn (x, k) (Inr (i, Fin m)) =
     Inr (case num of Fin r \<Rightarrow> if m < r then (k, Fin r) else (i, Fin m) | _ \<Rightarrow> (i, Fin m))"
  by (simp add: argmax_step_def split: jsnum.split)

lemma argmax_fold:
  "\<forall>x\<in>set xs. \<not> coerce_throws x \<Longrightarrow>
   \<exists>i' m'. fold (argmax_step sn) (zip xs [k..<k + length xs]) (Inr (i, Fin m)) = Inr (i', Fin m') \<and>
     m \<le> m' \<and>
     (\<forall>j<length xs. \<forall>r. Number_js sn (xs ! j) = Inr (Fin r) \<longrightarrow> r \<le> m') \<and>
     ((i' = i \<and> m' = m) \<or>
      (k \<le> i' \<and> i' < k + length xs \<and> Number_js sn (xs ! (i' - k)) = Inr (Fin m') \<and> m < m' \<and>
       (\<forall>j<i' - k. \<forall>r. Number_js sn (xs ! j) = Inr (Fin r) \<longrightarrow> r < m')))"
proof (induction xs arbitrary: k i m)
  case Nil
  then show ?case by simp
next
  case (Cons x xs)
  from Cons.prems obtain num where num: "Number_js sn x = Inr num"
    using Number_js_cases[of x sn] by auto
  have "\<exists>i0 m0. argmax_step sn (x, k) (Inr (i, Fin m)) = Inr (i0, Fin m0) \<and> m \<le> m0 \<and>
      (\<forall>r. Number_js sn x = Inr (Fin r) \<longrightarrow> r \<le> m0) \<and>
      ((i0 = i \<and> m0 = m) \<or> (i0 = k \<and> Number_js sn x = Inr (Fin m0) \<and> m < m0))"
    unfolding argmax_step_Fin[OF num] using num by (cases num) auto
  then obtain i0 m0 where st: "argmax_step sn (x, k) (Inr (i, Fin m)) = Inr (i0, Fin m0)"
    and m0: "m \<le> m0" "\<And>r. Number_js sn x = Inr (Fin r) \<Longrightarrow> r \<le> m0"
    and alt: "(i0 = i \<and> m0 = m) \<or> (i0 = k \<and> Number_js sn x = Inr (Fin m0) \<and> m < m0)"
    by blast
  have step: "fold (argmax_step sn) (zip (x # xs) [k..<k + length (x # xs)]) (Inr (i, Fin m))
      = fold (argmax_step sn) (zip xs [Suc k..<Suc k + length xs]) (Inr (i0, Fin m0))"
    by (simp only: zip_upt_Cons fold_simps st)
  from Cons.prems have "\<forall>x\<in>set xs. \<not> coerce_throws x" by simp
  from Cons.IH[OF this, of "Suc k" i0 m0] obtain i' m' where
    res: "fold (argmax_step sn) (zip xs [Suc k..<Suc k + length xs]) (Inr (i0, Fin m0)) = Inr (i', Fin m')"
    and le: "m0 \<le> m'"
    and ub: "\<And>j r. j < length xs \<Longrightarrow> Number_js sn (xs ! j) = Inr (Fin r) \<Longrightarrow> r \<le> m'"
    and alt': "(i' = i0 \<and> m' = m0) \<or>
      (Suc k \<le> i' \<and> i' < Suc k + length xs \<and> Number_js sn (xs ! (i' - Suc k)) = Inr (Fin m') \<and> m0 < m' \<and>
       (\<forall>j<i' - Suc k. \<forall>r. Number_js sn (xs ! j) = Inr (Fin r) \<longrightarrow> r < m'))"
    by blast
  have ub': "\<forall>j<length (x # xs). \<forall>r. Number_js sn ((x # xs) ! j) = Inr (Fin r) \<longrightarrow> r \<le> m'"
  proof (intro allI impI)
    fix j r assume "j < length (x # xs)" "Number_js sn ((x # xs) ! j) = Inr (Fin r)"
    then show "r \<le> m'"
      using m0(2)[of r] le ub[of "j - 1" r] by (cases j) auto
  qed
  have "(i' = i \<and> m' = m) \<or>
      (k \<le> i' \<and> i' < k + length (x # xs) \<and> Number_js sn ((x # xs) ! (i' - k)) = Inr (Fin m') \<and> m < m' \<and>
       (\<forall>j<i' - k. \<forall>r. Number_js sn ((x # xs) ! j) = Inr (Fin r) \<longrightarrow> r < m'))"
  proof -
    consider (same) "i' = i0" "m' = m0" "i0 = i" "m0 = m"
      | (here) "i' = i0" "m' = m0" "i0 = k" "Number_js sn x = Inr (Fin m0)" "m < m0"
      | (later) "Suc k \<le> i'" "i' < Suc k + length xs" "Number_js sn (xs ! (i' - Suc k)) = Inr (Fin m')" "m0 < m'"
          "\<forall>j<i' - Suc k. \<forall>r. Number_js sn (xs ! j) = Inr (Fin r) \<longrightarrow> r < m'"
      using alt alt' by blast
    then show ?thesis
    proof cases
      case same
      then show ?thesis by simp
    next
      case here
      then show ?thesis by simp
    next
      case later
      have idx: "i' - k = Suc (i' - Suc k)" using later(1) by simp
      have "\<forall>j<i' - k. \<forall>r. Number_js sn ((x # xs) ! j) = Inr (Fin r) \<longrightarrow> r < m'"
      proof (intro allI impI)
        fix j r assume j: "j < i' - k" "Number_js sn ((x # xs) ! j) = Inr (Fin r)"
        show "r < m'"
        proof (cases j)
          case 0
          with j m0(2)[of r] later(4) show ?thesis by simp
        next
          case (Suc j')
          with j idx later(5) show ?thesis by simp
        qed
      qed
      with later m0(1) idx show ?thesis by simp
    qed
  qed
  with res le m0(1) ub' show ?case unfolding step by (intro exI[of _ i'] exI[of _ m']) auto
qed

lemma argmax_loop_first_finite:
  assumes "xs \<noteq> []" and "\<forall>x\<in>set xs. \<not> coerce_throws x" and "Number_js sn (xs ! 0) = Inr (Fin r0)"
  shows "\<exists>i m. argmax_loop sn xs = Inr (i, Fin m) \<and> i < length xs \<and>
     Number_js sn (xs ! i) = Inr (Fin m) \<and>
     (\<forall>j<length xs. \<forall>r. Number_js sn (xs ! j) = Inr (Fin r) \<longrightarrow> r \<le> m) \<and>
     (\<forall>j<i. \<forall>r. Number_js sn (xs ! j) = Inr (Fin r) \<longrightarrow> r < m)"
proof -
  have first: "Number_js sn (js_nth xs 0) = Inr (Fin r0)"
    using assms(1,3) by (simp add: js_nth_def)
  have init: "or_zero (Fin r0) = Fin r0" by simp
  have loop: "argmax_loop sn xs = fold (argmax_step sn) (zip xs [0..<0 + length xs]) (Inr (0, Fin r0))"
    by (simp add: argmax_loop_def first)
  from argmax_fold[OF assms(2), of sn 0 0 r0] obtain i' m' where
    res: "fold (argmax_step sn) (zip xs [0..<0 + length xs]) (Inr (0, Fin r0)) = Inr (i', Fin m')"
    and ub: "\<forall>j<length xs. \<forall>r. Number_js sn (xs ! j) = Inr (Fin r) \<longrightarrow> r \<le> m'"
    and alt: "(i' = 0 \<and> m' = r0) \<or>
      (i' < length xs \<and> Number_js sn (xs ! i') = Inr (Fin m') \<and> r0 < m' \<and>
       (\<forall>j<i'. \<forall>r. Number_js sn (xs ! j) = Inr (Fin r) \<longrightarrow> r < m'))"
    by auto
  from alt assms(1,3) have "i' < length xs \<and> Number_js sn (xs ! i') = Inr (Fin m') \<and>
       (\<forall>j<i'. \<forall>r. Number_js sn (xs ! j) = Inr (Fin r) \<longrightarrow> r < m')"
    by auto
  with loop res ub show ?thesis by auto
qed

lemma argmax_step_NegInf:
  "Number_js sn x = Inr num \<Longrightarrow>
   argmax_step sn (x, k) (Inr (i, NegInf)) =
     Inr (case num of Fin r \<Rightarrow> (k, Fin r) | _ \<Rightarrow> (i, NegInf))"
  by (simp add: argmax_step_def split: jsnum.split)

lemma argmax_fold_NegInf:
  "\<forall>x\<in>set xs. \<not> coerce_throws x \<Longrightarrow>
   \<exists>j<length xs. \<exists>r. Number_js sn (xs ! j) = Inr (Fin r) \<Longrightarrow>
   \<exists>i' m'. fold (argmax_step sn) (zip xs [k..<k + length xs]) (Inr (i, NegInf)) = Inr (i', Fin m') \<and>
     k \<le> i' \<and> i' < k + length xs \<and> Number_js sn (xs ! (i' - k)) = Inr (Fin m') \<and>
     (\<forall>j<length xs. \<forall>r. Number_js sn (xs ! j) = Inr (Fin r) \<longrightarrow> r \<le> m') \<and>
     (\<forall>j<i' - k. \<forall>r. Number_js sn (xs ! j) = Inr (Fin r) \<longrightarrow> r < m')"
proof (induction xs arbitrary: k)
  case Nil
  then show ?case by simp
next
  case (Cons x xs)
  from Cons.prems(1) obtain num where num: "Number_js sn x = Inr num"
    using Number_js_cases[of x sn] by auto
  from Cons.prems(1) have nt: "\<forall>x\<in>set xs. \<not> coerce_throws x" by simp
  show ?case
  proof (cases "isFinite num")
    case True
    then obtain r0 where r0: "num = Fin r0" by (cases num) auto
    have step: "fold (argmax_step sn) (zip (x # xs) [k..<k + length (x # xs)]) (Inr (i, NegInf))
        = fold (argmax_step sn) (zip xs [Suc k..<Suc k + length xs]) (Inr (k, Fin r0))"
      by (simp only: zip_upt_Cons fold_simps argmax_step_NegInf[OF num] r0 jsnum.case)
    from argmax_fold[OF nt, of sn "Suc k" k r0] obtain i' m' where
      res: "fold (argmax_step sn) (zip xs [Suc k..<Suc k + length xs]) (Inr (k, Fin r0)) = Inr (i', Fin m')"
      and le: "r0 \<le> m'"
      and ub: "\<And>j r. j < length xs \<Longrightarrow> Number_js sn (xs ! j) = Inr (Fin r) \<Longrightarrow> r \<le> m'"
      and alt: "(i' = k \<and> m' = r0) \<or>
        (Suc k \<le> i' \<and> i' < Suc k + length xs \<and> Number_js sn (xs ! (i' - Suc k)) = Inr (Fin m') \<and> r0 < m' \<and>
         (\<forall>j<i' - Suc k. \<forall>r. Number_js sn (xs ! j) = Inr (Fin r) \<longrightarrow> r < m'))"
      by blast
    have ub': "\<forall>j<length (x # xs). \<forall>r. Number_js sn ((x # xs) ! j) = Inr (Fin r) \<longrightarrow> r \<le> m'"
    proof (intro allI impI)
      fix j r assume "j < length (x # xs)" "Number_js sn ((x # xs) ! j) = Inr (Fin r)"
      then show "r \<le> m'"
        using num r0 le ub[of "j - 1" r] by (cases j) auto
    qed
    from alt have "k \<le> i' \<and> i' < k + length (x # xs) \<and>
        Number_js sn ((x # xs) ! (i' - k)) = Inr (Fin m') \<and>
        (\<forall>j<i' - k. \<forall>r. Number_js sn ((x # xs) ! j) = Inr (Fin r) \<longrightarrow> r < m')"
    proof
      assume "i' = k \<and> m' = r0"
      with num r0 show ?thesis by simp
    next
      assume later: "Suc k \<le> i' \<and> i' < Suc k + length xs \<and>
         Number_js sn (xs ! (i' - Suc k)) = Inr (Fin m') \<and> r0 < m' \<and>
         (\<forall>j<i' - Suc k. \<forall>r. Number_js sn (xs ! j) = Inr (Fin r) \<longrightarrow> r < m')"
      then have "Suc k \<le> i'" by blast
      then have idx: "i' - k = Suc (i' - Suc k)" by simp
      have "\<forall>j<i' - k. \<forall>r. Number_js sn ((x # xs) ! j) = Inr (Fin r) \<longrightarrow> r < m'"
      proof (intro allI impI)
        fix j r assume j: "j < i' - k" "Number_js sn ((x # xs) ! j) = Inr (Fin r)"
        show "r < m'"
        proof (cases j)
          case 0
          with j num r0 later show ?thesis by simp
        next
          case (Suc j')
          with j idx later show ?thesis by simp
        qed
      qed
      with later idx show ?thesis by simp
    qed
    with res ub' show ?thesis
      unfolding step by (intro exI[of _ i'] exI[of _ m']) simp
  next
    case False
    then have st: "argmax_step sn (x, k) (Inr (i, NegInf)) = Inr (i, NegInf)"
      unfolding argmax_step_NegInf[OF num] by (cases num) simp_all
    have step: "fold (argmax_step sn) (zip (x # xs) [k..<k + length (x # xs)]) (Inr (i, NegInf))
        = fold (argmax_step sn) (zip xs [Suc k..<Suc k + length xs]) (Inr (i, NegInf))"
      by (simp only: zip_upt_Cons fold_simps st)
    from Cons.prems(2) obtain j r where j: "j < length (x # xs)" "Number_js sn ((x # xs) ! j) = Inr (Fin r)"
      by blast
    with num False have "j \<noteq> 0" by (cases j) auto
    with j have "\<exists>j<length xs. \<exists>r. Number_js sn (xs ! j) = Inr (Fin r)"
      by (cases j) auto
    from Cons.IH[OF nt this, of "Suc k"] obtain i' m' where
      res: "fold (argmax_step sn) (zip xs [Suc k..<Suc k + length xs]) (Inr (i, NegInf)) = Inr (i', Fin m')"
      and rng: "Suc k \<le> i'" "i' < Suc k + length xs"
      and at: "Number_js sn (xs ! (i' - Suc k)) = Inr (Fin m')"
      and ub: "\<And>j r. j < length xs \<Longrightarrow> Number_js sn (xs ! j) = Inr (Fin r) \<Longrightarrow> r \<le> m'"
      and before: "\<forall>j<i' - Suc k. \<forall>r. Number_js sn (xs ! j) = Inr (Fin r) \<longrightarrow> r < m'"
      by blast
    from rng have idx: "i' - k = Suc (i' - Suc k)" by simp
    have ub': "\<forall>j<length (x # xs). \<forall>r. Number_js sn ((x # xs) ! j) = Inr (Fin r) \<longrightarrow> r \<le> m'"
    proof (intro allI impI)
      fix j r assume "j < length (x # xs)" "Number_js sn ((x # xs) ! j) = Inr (Fin r)"
      then show "r \<le> m'"
        using num False ub[of "j - 1" r] by (cases j) auto
    qed
    have before': "\<forall>j<i' - k. \<forall>r. Number_js sn ((x # xs) ! j) = Inr (Fin r) \<longrightarrow> r < m'"
    proof (intro allI impI)
      fix j r assume j: "j < i' - k" "Number_js sn ((x # xs) ! j) = Inr (Fin r)"
      show "r < m'"
      proof (cases j)
        case 0
        with j num False show ?thesis by auto
      next
        case (Suc j')
        with j idx before show ?thesis by simp
      qed
    qed
    from res rng at idx ub' before' show ?thesis
      unfolding step by (intro exI[of _ i'] exI[of _ m']) simp
  qed
qed

lemma argmax_loop_first_NegInf:
  assumes "\<forall>x\<in>set xs. \<not> coerce_throws x" and "xs \<noteq> []" and "Number_js sn (xs ! 0) = Inr NegInf"
    and "\<exists>j<length xs. \<exists>r. Number_js sn (xs ! j) = Inr (Fin r)"
  shows "\<exists>i m. argmax_loop sn xs = Inr (i, Fin m) \<and> i < length xs \<and>
     Number_js sn (xs ! i) = Inr (Fin m) \<and>
     (\<forall>j<length xs. \<forall>r. Number_js sn (xs ! j) = Inr (Fin r) \<longrightarrow> r \<le> m) \<and>
     (\<forall>j<i. \<forall>r. Number_js sn (xs ! j) = Inr (Fin r) \<longrightarrow> r < m)"
proof -
  have first: "Number_js sn (js_nth xs 0) = Inr NegInf"
    using assms(2,3) by (simp add: js_nth_def)
  have loop: "argmax_loop sn xs = fold (argmax_step sn) (zip xs [0..<0 + length xs]) (Inr (0, NegInf))"
    by (simp add: argmax_loop_def first)
  from argmax_fold_NegInf[OF assms(1,4), of 0 0] show ?thesis
    unfolding loop by auto
qed

lemma argmax_loop_argmax:
  assumes "xs \<noteq> []" and "\<forall>x\<in>set xs. \<not> coerce_throws x"
    and "Number_js sn (xs ! 0) = Inr first" and "first \<noteq> PosInf" and "first \<noteq> NaN"
    and "\<exists>j<length xs. \<exists>r. Number_js sn (xs ! j) = Inr (Fin r)"
  shows "\<exists>i m. argmax_loop sn xs = Inr (i, Fin m) \<and> i < length xs \<and>
     Number_js sn (xs ! i) = Inr (Fin m) \<and>
     (\<forall>j<length xs. \<forall>r. Number_js sn (xs ! j) = Inr (Fin r) \<longrightarrow> r \<le> m) \<and>
     (\<forall>j<i. \<forall>r. Number_js sn (xs ! j) = Inr (Fin r) \<longrightarrow> r < m)"
proof (cases first)
  case (Fin r0)
  with assms(3) have "Number_js sn (xs ! 0) = Inr (Fin r0)" by simp
  from argmax_loop_first_finite[OF assms(1,2) this] show ?thesis .
next
  case NegInf
  with assms(3) have "Number_js sn (xs ! 0) = Inr NegInf" by simp
  from argmax_loop_first_NegInf[OF assms(2,1) this assms(6)] show ?thesis .
next
  case PosInf
  with assms(4) show ?thesis by simp
next
  case NaN
  with assms(5) show ?thesis by simp
qed

lemma band_of_index: "bands ! min i (length bands - Suc 0) = band_of i"
  unfolding bands_def band_of_def by (simp add: min_def nth_Cons')





lemma Number_toFixed_zero: "fl 0 = Fin 0 \<Longrightarrow> Number_toFixed fl 1 (Fin 0) = Fin 0"
  by (simp add: toFixed_def)


lemma score_rounding:
  "(case v of
      Fin p \<Rightarrow> if \<bar>p\<bar> < 10 ^ 21 then \<exists>q. nearest_tenth p q \<and> Number_toFixed fl 1 v = fl q
               else Number_toFixed fl 1 v = Fin p
    | _ \<Rightarrow> Number_toFixed fl 1 v = v)"
proof (cases v)
  case (Fin p)
  show ?thesis
  proof (cases "\<bar>p\<bar> < 10 ^ 21")
    case True
    from toFixed_1_nearest[OF True] True have "\<exists>q. nearest_tenth p q \<and> Number_toFixed fl 1 (Fin p) = fl q"
      by (intro exI[of _ "toFixed 1 p"]) simp
    with True Fin show ?thesis by simp
  next
    case False
    with Fin show ?thesis by simp
  qed
qed simp_all

text \<open>
  C1 as stated fails: with the vector \<open>[Infinity, 0.5, 0.2]\<close> the result is Low with
  score 0. No index of the vector has band Low and an entry whose hundredfold rounds to
  0: the claim's level and score cannot both come from the maximum, however it is read.
\<close>

theorem infinite_first_counterexample:
  "biomass_field payload_infinite_first ''confidence'' =
     Inr (JArr [JNum PosInf, JNum (Fin 0.5), JNum (Fin 0.2)])
   \<and> map (Number_js (\<lambda>_. NaN)) [JNum PosInf, JNum (Fin 0.5), JNum (Fin 0.2)] =
       [Inr PosInf, Inr (Fin 0.5), Inr (Fin 0.2)]
   \<and> extractProteinPrediction (\<lambda>_. NaN) Fin payload_infinite_first =
       Inr (Some \<lparr>level = Low, score = Fin 0\<rparr>)
   \<and> \<not> claimed_tier1 Fin [PosInf, Fin 0.5, Fin 0.2] \<lparr>level = Low, score = Fin 0\<rparr>"
proof -
  have a: "biomass_field payload_infinite_first ''confidence'' =
     Inr (JArr [JNum PosInf, JNum (Fin 0.5), JNum (Fin 0.2)])"
    by (simp add: payload_infinite_first_def payload_eval)
  have b: "map (Number_js (\<lambda>_. NaN)) [JNum PosInf, JNum (Fin 0.5), JNum (Fin 0.2)] =
       [Inr PosInf, Inr (Fin 0.5), Inr (Fin 0.2)]"
    by simp
  have c: "extractProteinPrediction (\<lambda>_. NaN) Fin payload_infinite_first =
       Inr (Some \<lparr>level = Low, score = Fin 0\<rparr>)"
    by (simp add: payload_infinite_first_def payload_eval)
  have d: "\<not> claimed_tier1 Fin [PosInf, Fin 0.5, Fin 0.2] \<lparr>level = Low, score = Fin 0\<rparr>"
  proof
    assume "claimed_tier1 Fin [PosInf, Fin 0.5, Fin 0.2] \<lparr>level = Low, score = Fin 0\<rparr>"
    then obtain i where i: "i < length [PosInf, Fin 0.5, Fin 0.2]"
      "level \<lparr>level = Low, score = Fin 0\<rparr> = band_of i"
      "score \<lparr>level = Low, score = Fin 0\<rparr> =
         Number_toFixed Fin 1 (times_100 Fin ([PosInf, Fin 0.5, Fin 0.2] ! i))"
      unfolding claimed_tier1_def by blast
    from i(1) have "i = 0 \<or> i = 1 \<or> i = 2" by auto
    with i(2,3) show False by (auto simp: band_of_def)
  qed
  show ?thesis by (intro conjI a b c d)
qed

text \<open>
  C1, amended. When \<open>biomass_prediction.confidence\<close> is an array of at least 3 entries
  that can all be coerced, whose first entry coerces to a number other than NaN and
  +Infinity, and of which at least one coerces to a finite number, the result is that of
  the first tier: there is an index \<open>i\<close> holding a finite value \<open>m\<close> that no finite entry
  exceeds and no finite entry before \<open>i\<close> reaches (the first maximum under strict
  comparison, entries that are not finite being passed over); the level is Low, Medium or
  High for \<open>i = 0\<close>, \<open>1\<close> or anything from \<open>2\<close> on; the score is the double product
  \<open>m * 100\<close> rounded to one decimal place and read back as a double (below \<open>10^21\<close>; the
  product itself from there on and when it overflows). Nothing is assumed about
  \<open>biomass_prediction.biomass_prediction\<close>, so this holds when it is a valid number too.
\<close>

theorem confidence_vector_tier:
  assumes "biomass_field payload ''confidence'' = Inr (JArr xs)"
    and "3 \<le> length xs"
    and "\<forall>x\<in>set xs. \<not> coerce_throws x"
    and "Number_js sn (xs ! 0) = Inr first" and "first \<noteq> PosInf" and "first \<noteq> NaN"
    and "\<exists>j<length xs. \<exists>r. Number_js sn (xs ! j) = Inr (Fin r)"
  shows "\<exists>i m s. i < length xs \<and> Number_js sn (xs ! i) = Inr (Fin m) \<and>
     (\<forall>j<length xs. \<forall>r. Number_js sn (xs ! j) = Inr (Fin r) \<longrightarrow> r \<le> m) \<and>
     (\<forall>j<i. \<forall>r. Number_js sn (xs ! j) = Inr (Fin r) \<longrightarrow> r < m) \<and>
     extractProteinPrediction sn fl payload =
       Inr (Some \<lparr>level = (if i = 0 then Low else if i = 1 then Medium else High), score = s\<rparr>) \<and>
     (case fl (m * 100) of
        Fin p \<Rightarrow> if \<bar>p\<bar> < 10 ^ 21 then \<exists>q. nearest_tenth p q \<and> s = fl q else s = Fin p
      | _ \<Rightarrow> s = fl (m * 100))"
proof -
  from assms(2) have ne: "xs \<noteq> []" by auto
  from argmax_loop_argmax[OF ne assms(3-7)] obtain i m where
    loop: "argmax_loop sn xs = Inr (i, Fin m)" and
    props: "i < length xs" "Number_js sn (xs ! i) = Inr (Fin m)"
      "\<forall>j<length xs. \<forall>r. Number_js sn (xs ! j) = Inr (Fin r) \<longrightarrow> r \<le> m"
      "\<forall>j<i. \<forall>r. Number_js sn (xs ! j) = Inr (Fin r) \<longrightarrow> r < m"
    by blast
  define s where "s = Number_toFixed fl 1 (fl (m * 100))"
  have "confidence_tier sn fl xs =
      Inr \<lparr>level = (if i = 0 then Low else if i = 1 then Medium else High), score = s\<rparr>"
    by (simp add: confidence_tier_def loop band_of_index band_of_def s_def)
  with extractProteinPrediction_tier1[OF assms(1,2), of sn fl]
  have res: "extractProteinPrediction sn fl payload =
       Inr (Some \<lparr>level = (if i = 0 then Low else if i = 1 then Medium else High), score = s\<rparr>)"
    by simp
  have rnd: "(case fl (m * 100) of
        Fin p \<Rightarrow> if \<bar>p\<bar> < 10 ^ 21 then \<exists>q. nearest_tenth p q \<and> s = fl q else s = Fin p
      | _ \<Rightarrow> s = fl (m * 100))"
    unfolding s_def using score_rounding[where v = "fl (m * 100)" and fl = fl]
    by (cases "fl (m * 100)") simp_all
  from props res rnd show ?thesis by blast
qed

theorem confidence_vector_tier_witness:
  "biomass_field payload_both ''confidence'' =
     Inr (JArr [JNum (Fin 0.1), JNum (Fin 0.1), JNum (Fin 0.8), JNum (Fin 0.9)])
   \<and> biomass_field payload_both ''biomass_prediction'' = Inr (JNum (Fin 25))
   \<and> extractProteinPrediction (\<lambda>_. NaN) Fin payload_both = Inr (Some \<lparr>level = High, score = Fin 90\<rparr>)
   \<and> (\<exists>i m s. i < 4 \<and> [JNum (Fin 0.1), JNum (Fin 0.1), JNum (Fin 0.8), JNum (Fin 0.9)] ! i = JNum (Fin m) \<and>
        extractProteinPrediction (\<lambda>_. NaN) Fin payload_both =
          Inr (Some \<lparr>level = (if i = 0 then Low else if i = 1 then Medium else High), score = s\<rparr>) \<and>
        (\<exists>q. nearest_tenth (m * 100) q \<and> s = Fin q))"
proof -
  let ?xs = "[JNum (Fin 0.1), JNum (Fin 0.1), JNum (Fin 0.8), JNum (Fin 0.9)]"
  have h1: "biomass_field payload_both ''confidence'' = Inr (JArr ?xs)"
    by (simp add: payload_both_def payload_eval)
  have h2: "3 \<le> length ?xs" by simp
  have h3: "\<forall>x\<in>set ?xs. \<not> coerce_throws x" by simp
  have h4: "Number_js (\<lambda>_. NaN) (?xs ! 0) = Inr (Fin 0.1)" "Fin 0.1 \<noteq> PosInf" "Fin 0.1 \<noteq> NaN"
    by simp_all
  have h6: "\<exists>j<length ?xs. \<exists>r. Number_js (\<lambda>_. NaN) (?xs ! j) = Inr (Fin r)"
    by (intro exI[of _ 0] conjI exI[of _ "0.1"]) simp_all
  have h5: "biomass_field payload_both ''biomass_prediction'' = Inr (JNum (Fin 25))"
    by (simp add: payload_both_def payload_eval)
  have ev: "extractProteinPrediction (\<lambda>_. NaN) Fin payload_both = Inr (Some \<lparr>level = High, score = Fin 90\<rparr>)"
    by (simp add: payload_both_def payload_eval)
  from confidence_vector_tier[OF h1 h2 h3 h4 h6, of Fin] obtain i m s where
    i: "i < length ?xs" and m: "Number_js (\<lambda>_. NaN) (?xs ! i) = Inr (Fin m)" and
    r: "extractProteinPrediction (\<lambda>_. NaN) Fin payload_both =
          Inr (Some \<lparr>level = (if i = 0 then Low else if i = 1 then Medium else High), score = s\<rparr>)" and
    c: "(case Fin (m * 100) of
        Fin p \<Rightarrow> if \<bar>p\<bar> < 10 ^ 21 then \<exists>q. nearest_tenth p q \<and> s = Fin q else s = Fin p
      | _ \<Rightarrow> s = Fin (m * 100))"
    by blast
  from i have "i = 0 \<or> i = 1 \<or> i = 2 \<or> i = 3"
    by auto
  with m have xm: "?xs ! i = JNum (Fin m)" and mv: "m = 0.1 \<or> m = 0.8 \<or> m = 0.9"
    by auto
  from mv have "\<bar>m * 100\<bar> < 10 ^ 21" by auto
  with c have "\<exists>q. nearest_tenth (m * 100) q \<and> s = Fin q" by simp
  with i xm r have ex: "\<exists>i m s. i < 4 \<and> ?xs ! i = JNum (Fin m) \<and>
        extractProteinPrediction (\<lambda>_. NaN) Fin payload_both =
          Inr (Some \<lparr>level = (if i = 0 then Low else if i = 1 then Medium else High), score = s\<rparr>) \<and>
        (\<exists>q. nearest_tenth (m * 100) q \<and> s = Fin q)"
    by (intro exI[of _ i] exI[of _ m] exI[of _ s]) simp
  show ?thesis
    by (intro conjI h1 h5 ev ex)
qed




section \<open>Protein classifier: numeric banding\<close>

text \<open>
  C7. When the first tier does not apply and \<open>biomass_prediction.biomass_prediction\<close>
  coerces to a finite number \<open>v\<close>, the result is Low for \<open>v < 30\<close>, Medium for
  \<open>30 \<le> v < 70\<close> and High for \<open>v \<ge> 70\<close>, always with score 70.
\<close>

theorem numeric_banding_tier:
  assumes "biomass_field payload ''confidence'' = Inr c" and "\<not> tier1_applies c"
    and "biomass_field payload ''biomass_prediction'' = Inr bp" and "Number_js sn bp = Inr (Fin v)"
  shows "extractProteinPrediction sn fl payload =
     Inr (Some \<lparr>level = (if v < 30 then Low else if v < 70 then Medium else High), score = Fin 70\<rparr>)"
proof -
  from assms(1) obtain inner biomass where i: "inner_of payload = Inr inner"
    "section_of inner ''biomass_prediction'' = Inr biomass"
    "get_prop biomass ''confidence'' = Inr c"
    by (rule biomass_field_unfold)
  from assms(3) i(1,2) have bp: "get_prop biomass ''biomass_prediction'' = Inr bp"
    by (simp add: biomass_field_def)
  show ?thesis
    by (simp add: extractProteinPrediction_def lower_tiers_def i bp assms(2,4))
qed

theorem numeric_banding_tier_witness:
  "biomass_field payload_numeric ''confidence'' = Inr JUndefined
   \<and> \<not> tier1_applies JUndefined
   \<and> biomass_field payload_numeric ''biomass_prediction'' = Inr (JNum (Fin 25))
   \<and> extractProteinPrediction (\<lambda>_. NaN) Fin payload_numeric = Inr (Some \<lparr>level = Low, score = Fin 70\<rparr>)"
proof -
  have h1: "biomass_field payload_numeric ''confidence'' = Inr JUndefined"
    by (simp add: payload_numeric_def payload_eval)
  have h2: "\<not> tier1_applies JUndefined" by simp
  have h3: "biomass_field payload_numeric ''biomass_prediction'' = Inr (JNum (Fin 25))"
    by (simp add: payload_numeric_def payload_eval)
  have h4: "Number_js (\<lambda>_. NaN) (JNum (Fin 25)) = Inr (Fin 25)" by simp
  from numeric_banding_tier[OF h1 h2 h3 h4, of Fin] h1 h2 h3 show ?thesis by simp
qed

section \<open>Growth series\<close>

lemma toFixed2_bounds:
  assumes "0 \<le> x"
  shows "of_int a \<le> x * 100 \<Longrightarrow> of_int a / 100 \<le> toFixed 2 x"
    and "x * 100 \<le> of_int b \<Longrightarrow> toFixed 2 x \<le> of_int b / 100"
proof -
  have "toFixed 2 x = x \<or> toFixed 2 x = of_int \<lfloor>x * 100 + 1 / 2\<rfloor> / 100"
    using assms by (cases "\<bar>x\<bar> \<ge> 10 ^ 21") (simp_all add: toFixed_def)
  then consider (big) "toFixed 2 x = x" | (rounded) "toFixed 2 x = of_int \<lfloor>x * 100 + 1 / 2\<rfloor> / 100"
    by blast
  note tf = this
  show "of_int a / 100 \<le> toFixed 2 x" if "of_int a \<le> x * 100"
    using tf
  proof cases
    case big
    with that show ?thesis by simp
  next
    case rounded
    from that have "of_int a \<le> x * 100 + 1 / 2" by simp
    then have "a \<le> \<lfloor>x * 100 + 1 / 2\<rfloor>" by (simp add: le_floor_iff)
    then have "(of_int a :: real) \<le> of_int \<lfloor>x * 100 + 1 / 2\<rfloor>" by simp
    then show ?thesis unfolding rounded by (simp add: divide_right_mono)
  qed
  show "toFixed 2 x \<le> of_int b / 100" if "x * 100 \<le> of_int b"
    using tf
  proof cases
    case big
    with that show ?thesis by simp
  next
    case rounded
    from that have "x * 100 + 1 / 2 < of_int b + 1" by simp
    then have "\<lfloor>x * 100 + 1 / 2\<rfloor> \<le> b" by (simp add: floor_le_iff)
    then have "(of_int \<lfloor>x * 100 + 1 / 2\<rfloor> :: real) \<le> of_int b" by simp
    then show ?thesis unfolding rounded by (simp add: divide_right_mono)
  qed
qed

lemma baseDoubling_bounds: "1.8 \<le> baseDoubling m \<and> baseDoubling m \<le> 3.5"
  by (simp add: baseDoubling_def Let_def IDEAL_METRICS_def min_def max_def)

lemma seasonal_bounds: "- 0.1 \<le> sin x * 0.1 \<and> sin x * (0.1::real) \<le> 0.1"
  using sin_ge_minus_one[of x] sin_le_one[of x] by linarith

lemma growth_value_bounds:
  "1.7 \<le> toFixed 2 (baseDoubling m + sin x * 0.1) \<and> toFixed 2 (baseDoubling m + sin x * 0.1) \<le> 3.6"
proof -
  let ?v = "baseDoubling m + sin x * 0.1"
  have b: "1.7 \<le> ?v" "?v \<le> 3.6"
    using baseDoubling_bounds[of m] seasonal_bounds[of x] by linarith+
  then have nn: "0 \<le> ?v" by simp
  from b have "of_int 170 \<le> ?v * 100" "?v * 100 \<le> of_int 360" by simp_all
  from toFixed2_bounds(1)[OF nn this(1)] toFixed2_bounds(2)[OF nn this(2)]
  show ?thesis by simp
qed

lemma default_value_bounds: "1.85 \<le> 2.1 + sin x * (0.25::real)"
proof -
  define s where "s = sin x"
  have "- 1 \<le> s" by (simp add: s_def)
  then have "1.85 \<le> 2.1 + s * (0.25::real)" by simp
  then show ?thesis by (simp add: s_def)
qed

lemma growth_points:
  "p \<in> set (generateGrowthSeriesFromMetrics (Some m)) \<Longrightarrow>
     \<exists>x. doublingTime p = toFixed 2 (baseDoubling m + sin x * 0.1)"
  by (auto simp: Let_def)

text \<open>
  C3. Whether the metrics are absent or present, the growth series has exactly 14
  points, their days are 1, 2, ..., 14 in this order, and every doubling time is
  strictly positive.
\<close>

theorem growth_series_shape:
  "length (generateGrowthSeriesFromMetrics metrics) = 14
   \<and> map day (generateGrowthSeriesFromMetrics metrics) = [1..<15]
   \<and> (\<forall>p\<in>set (generateGrowthSeriesFromMetrics metrics). 0 < doublingTime p)"
proof (cases metrics)
  case None
  have "map day DEFAULT_GROWTH_SERIES = map Suc [0..<14]"
    by (simp add: DEFAULT_GROWTH_SERIES_def comp_def del: upt_Suc)
  also have "\<dots> = [1..<15]"
    by (simp only: map_Suc_upt) simp
  finally have d: "map day DEFAULT_GROWTH_SERIES = [1..<15]" .
  have "0 < doublingTime p" if "p \<in> set DEFAULT_GROWTH_SERIES" for p
  proof -
    from that obtain x where "doublingTime p = 2.1 + sin x * 0.25"
      by (auto simp: DEFAULT_GROWTH_SERIES_def)
    with default_value_bounds[of x] show ?thesis by simp
  qed
  with d None show ?thesis
    by (simp add: DEFAULT_GROWTH_SERIES_def)
next
  case (Some m)
  have "map day (generateGrowthSeriesFromMetrics (Some m)) = map Suc [0..<14]"
    by (simp add: comp_def Let_def del: upt_Suc)
  also have "\<dots> = [1..<15]"
    by (simp only: map_Suc_upt) simp
  finally have d: "map day (generateGrowthSeriesFromMetrics (Some m)) = [1..<15]" .
  have "0 < doublingTime p" if "p \<in> set (generateGrowthSeriesFromMetrics (Some m))" for p
  proof -
    from growth_points[OF that] obtain x where "doublingTime p = toFixed 2 (baseDoubling m + sin x * 0.1)"
      by blast
    with growth_value_bounds[of m x] show ?thesis by simp
  qed
  with d Some show ?thesis by simp
qed

theorem growth_series_shape_witness:
  "length (generateGrowthSeriesFromMetrics None) = 14
   \<and> map day (generateGrowthSeriesFromMetrics (Some IDEAL_METRICS)) = [1, 2, 3, 4, 5, 6, 7, 8, 9, 10, 11, 12, 13, 14]
   \<and> 0 < doublingTime (generateGrowthSeriesFromMetrics None ! 0)
   \<and> 0 < doublingTime (generateGrowthSeriesFromMetrics (Some metrics_hot) ! 13)"
proof -
  note n = growth_series_shape[of None]
  note i = growth_series_shape[of "Some IDEAL_METRICS"]
  note h = growth_series_shape[of "Some metrics_hot"]
  have u: "[1..<15] = [1, 2, 3, 4, 5, 6, 7, 8, 9, 10, 11, 12, 13, 14::nat]"
    by (simp add: upt_conv_Cons)
  have "generateGrowthSeriesFromMetrics None ! 0 \<in> set (generateGrowthSeriesFromMetrics None)"
    using n by (intro nth_mem) simp
  with n have a: "0 < doublingTime (generateGrowthSeriesFromMetrics None ! 0)" by blast
  have "generateGrowthSeriesFromMetrics (Some metrics_hot) ! 13 \<in> set (generateGrowthSeriesFromMetrics (Some metrics_hot))"
    using h by (intro nth_mem) simp
  with h have b: "0 < doublingTime (generateGrowthSeriesFromMetrics (Some metrics_hot) ! 13)" by blast
  from n i a b u show ?thesis by simp
qed

lemma sin_08_ge_half: "1 / 2 \<le> sin (0.8::real)"
proof -
  have "pi / 6 \<le> (0.8::real)" using pi_less_4 by simp
  moreover have "(0.8::real) \<le> pi / 2" using pi_ge_two by simp
  moreover have "- (pi / 2) \<le> pi / 6" using pi_gt_zero by simp
  ultimately have "sin (pi / 6) \<le> sin (0.8::real)"
    by (intro sin_monotone_2pi_le) simp_all
  then show ?thesis by (simp add: sin_30)
qed

lemma hot_day2:
  "generateGrowthSeriesFromMetrics (Some metrics_hot) ! 1 =
     \<lparr>day = 2, doublingTime = toFixed 2 (3.5 + sin 0.8 * 0.1)\<rparr>"
proof -
  have b: "baseDoubling metrics_hot = 3.5"
    by (simp add: baseDoubling_def metrics_hot_def IDEAL_METRICS_def Let_def)
  have "(1::nat) < 14" by simp
  then have "generateGrowthSeriesFromMetrics (Some metrics_hot) ! 1 =
      \<lparr>day = 1 + 1, doublingTime = toFixed 2 (baseDoubling metrics_hot + sin (real (1 + 1) / 2.5) * 0.1)\<rparr>"
    by (simp add: Let_def del: upt_Suc)
  then show ?thesis by (simp add: b)
qed

text \<open>
  C4 as stated fails: at a temperature of 100 degrees the base is clamped to 3.5 and the
  seasonal term of day 2 lifts the rounded doubling time to at least 3.55.
\<close>

theorem growth_upper_bound_counterexample:
  "\<not> (1.2 \<le> doublingTime (generateGrowthSeriesFromMetrics (Some metrics_hot) ! 1)
      \<and> doublingTime (generateGrowthSeriesFromMetrics (Some metrics_hot) ! 1) \<le> 3.5)"
proof -
  have nn: "(0::real) \<le> 3.5 + sin 0.8 * 0.1" using sin_08_ge_half by simp
  have "of_int 355 \<le> (3.5 + sin 0.8 * 0.1) * (100::real)" using sin_08_ge_half by simp
  from toFixed2_bounds(1)[OF nn this] have "3.55 \<le> toFixed 2 (3.5 + sin 0.8 * 0.1)" by simp
  then show ?thesis unfolding hot_day2 by simp
qed

text \<open>
  C4, amended. The clamp to [1.2, 3.5] bounds the base doubling time; the seasonal term,
  within 0.1 of zero, is added after the clamp, so every doubling time of the series
  lies in [1.2, 3.6].
\<close>

theorem growth_bounds_amended:
  "1.2 \<le> baseDoubling m \<and> baseDoubling m \<le> 3.5
   \<and> (\<forall>p\<in>set (generateGrowthSeriesFromMetrics (Some m)).
         1.2 \<le> doublingTime p \<and> doublingTime p \<le> 3.6)"
proof (intro conjI ballI)
  show "1.2 \<le> baseDoubling m" "baseDoubling m \<le> 3.5"
    using baseDoubling_bounds[of m] by linarith+
next
  fix p assume "p \<in> set (generateGrowthSeriesFromMetrics (Some m))"
  from growth_points[OF this] obtain x where
    p: "doublingTime p = toFixed 2 (baseDoubling m + sin x * 0.1)"
    by blast
  show "1.2 \<le> doublingTime p" "doublingTime p \<le> 3.6"
    using growth_value_bounds[of m x] unfolding p by linarith+
qed


theorem growth_bounds_amended_witness:
  "1.2 \<le> doublingTime (generateGrowthSeriesFromMetrics (Some metrics_hot) ! 1)
   \<and> doublingTime (generateGrowthSeriesFromMetrics (Some metrics_hot) ! 1) \<le> 3.6
   \<and> baseDoubling metrics_hot = 3.5"
proof -
  have "length (generateGrowthSeriesFromMetrics (Some metrics_hot)) = 14" by simp
  then have "generateGrowthSeriesFromMetrics (Some metrics_hot) ! 1
      \<in> set (generateGrowthSeriesFromMetrics (Some metrics_hot))"
    by (intro nth_mem) simp
  with growth_bounds_amended[of metrics_hot]
  have "1.2 \<le> doublingTime (generateGrowthSeriesFromMetrics (Some metrics_hot) ! 1)
   \<and> doublingTime (generateGrowthSeriesFromMetrics (Some metrics_hot) ! 1) \<le> 3.6"
    by blast
  moreover have "baseDoubling metrics_hot = 3.5"
    by (simp add: baseDoubling_def metrics_hot_def IDEAL_METRICS_def Let_def)
  ultimately show ?thesis by blast
qed

section \<open>Text normalizer\<close>

declare replace_bold.simps(2) [simp del]

lemma star_not_terminator: "\<not> is_line_terminator star"
  by (simp add: is_line_terminator_def star_def)

lemma match_bold_not_star: "c \<noteq> star \<Longrightarrow> match_bold (c # cs) = None"
  by (cases cs) simp_all

lemma match_bold_star_other: "d \<noteq> star \<Longrightarrow> match_bold (c # d # ds) = None"
  by simp

lemma replace_bold_no_match [simp]:
  "match_bold (c # cs) = None \<Longrightarrow> replace_bold (c # cs) = c # replace_bold cs"
  by (simp add: replace_bold.simps(2))

lemma replace_bold_match [simp]:
  "match_bold (c # cs) = Some (g, r) \<Longrightarrow> replace_bold (c # cs) = g @ replace_bold r"
  by (simp add: replace_bold.simps(2))

lemma find_close_Some:
  "find_close s = Some (g, r) \<Longrightarrow>
     s = g @ star # star # r \<and> plain g \<and> (\<forall>c\<in>set g. \<not> is_line_terminator c)"
proof (induction s arbitrary: g r)
  case Nil
  then show ?case by simp
next
  case (Cons c cs)
  show ?case
  proof (cases "c = star \<and> (case cs of [] \<Rightarrow> False | d # ds \<Rightarrow> d = star)")
    case True
    with Cons.prems show ?thesis by (cases cs) auto
  next
    case False
    with Cons.prems obtain g' where nl: "\<not> is_line_terminator c"
      and fc: "find_close cs = Some (g', r)" and g: "g = c # g'"
      by (auto split: if_splits)
    from Cons.IH[OF fc] have ih: "cs = g' @ star # star # r" "plain g'"
      "\<forall>c\<in>set g'. \<not> is_line_terminator c" by simp_all
    have "plain (c # g')"
      using False ih(1,2) by (cases g') auto
    with ih nl g show ?thesis by simp
  qed
qed

lemma find_close_plain:
  "plain g \<Longrightarrow> \<forall>c\<in>set g. \<not> is_line_terminator c \<Longrightarrow> find_close (g @ star # star # r) = Some (g, r)"
  by (induction g rule: plain.induct) auto

lemma replace_bold_plain: "plain g \<Longrightarrow> replace_bold (g @ t) = g @ replace_bold t"
proof (induction g rule: plain.induct)
  case 1
  then show ?case by simp
next
  case (2 c)
  then have "match_bold (c # t) = None" by (simp add: match_bold_not_star)
  then show ?case by simp
next
  case (3 c d r)
  then have "match_bold (c # d # r @ t) = None" by auto
  with 3 show ?case by simp
qed

lemma replace_bold_head:
  "d \<noteq> star \<Longrightarrow> replace_bold (d # ds) = d # replace_bold ds"
  by (simp add: match_bold_not_star)

lemma starts_star_replace:
  "\<not> (case cs of [] \<Rightarrow> False | d # ds \<Rightarrow> d = star) \<Longrightarrow>
   \<not> (case replace_bold cs of [] \<Rightarrow> False | d # ds \<Rightarrow> d = star)"
  by (cases cs) (simp_all add: replace_bold_head)

lemma find_close_replace_None:
  "find_close s = None \<Longrightarrow> find_close (replace_bold s) = None"
proof (induction s)
  case Nil
  then show ?case by simp
next
  case (Cons c cs)
  let ?st = "case cs of [] \<Rightarrow> False | d # ds \<Rightarrow> d = star"
  from Cons.prems have ns: "\<not> (c = star \<and> ?st)" by (auto split: if_splits)
  then have nm: "match_bold (c # cs) = None"
    by (cases cs) (auto simp: match_bold_not_star)
  then have rb: "replace_bold (c # cs) = c # replace_bold cs" by simp
  have ns': "\<not> (c = star \<and> (case replace_bold cs of [] \<Rightarrow> False | d # ds \<Rightarrow> d = star))"
    using ns starts_star_replace[of cs] by blast
  show ?case
  proof (cases "is_line_terminator c")
    case True
    with ns' show ?thesis unfolding rb by simp
  next
    case False
    with Cons.prems ns have "find_close cs = None" by (auto split: if_splits)
    from Cons.IH[OF this] ns' False show ?thesis unfolding rb by simp
  qed
qed

lemma match_bold_replace_None:
  assumes "match_bold (c # cs) = None"
  shows "match_bold (c # replace_bold cs) = None"
proof (cases "c = star")
  case False
  then show ?thesis by (simp add: match_bold_not_star)
next
  case True
  show ?thesis
  proof (cases cs)
    case Nil
    then show ?thesis by simp
  next
    case (Cons d ds)
    show ?thesis
    proof (cases "d = star")
      case False
      with Cons show ?thesis by (simp add: replace_bold_head)
    next
      case d: True
      with assms True Cons have fc: "find_close ds = None" by simp
      have "match_bold (d # ds) = None"
      proof (cases ds)
        case Nil
        then show ?thesis by simp
      next
        case (Cons e es)
        with fc d show ?thesis
          by (auto simp: star_not_terminator split: if_splits)
      qed
      then have "replace_bold (d # ds) = d # replace_bold ds" by simp
      with Cons d True find_close_replace_None[OF fc] show ?thesis by simp
    qed
  qed
qed

lemma match_bold_Some:
  "match_bold s = Some (g, r) \<Longrightarrow>
     s = star # star # g @ star # star # r \<and> plain g \<and> (\<forall>c\<in>set g. \<not> is_line_terminator c)"
  by (cases s rule: match_bold.cases) (auto split: if_splits dest: find_close_Some)

lemma replace_bold_idem: "replace_bold (replace_bold s) = replace_bold s"
proof (induction s rule: replace_bold.induct)
  case 1
  then show ?case by simp
next
  case (2 c cs)
  show ?case
  proof (cases "match_bold (c # cs)")
    case None
    then have rb: "replace_bold (c # cs) = c # replace_bold cs" by simp
    from match_bold_replace_None[OF None]
    have "replace_bold (c # replace_bold cs) = c # replace_bold (replace_bold cs)" by simp
    with 2(1)[OF None] rb show ?thesis by simp
  next
    case (Some gr)
    obtain g r where gr: "gr = (g, r)" by (cases gr)
    with Some have m: "match_bold (c # cs) = Some (g, r)" by simp
    then have rb: "replace_bold (c # cs) = g @ replace_bold r" by simp
    from match_bold_Some[OF m] have "plain g" by simp
    from replace_bold_plain[OF this] 2(2)[OF m refl] rb show ?thesis by simp
  qed
qed

lemma replace_bold_keeps_others:
  "filter (\<lambda>c. c \<noteq> star) (replace_bold s) = filter (\<lambda>c. c \<noteq> star) s"
proof (induction s rule: replace_bold.induct)
  case 1
  then show ?case by simp
next
  case (2 c cs)
  show ?case
  proof (cases "match_bold (c # cs)")
    case None
    with 2(1)[OF None] show ?thesis by simp
  next
    case (Some gr)
    obtain g r where gr: "gr = (g, r)" by (cases gr)
    with Some have m: "match_bold (c # cs) = Some (g, r)" by simp
    from match_bold_Some[OF m] have s: "c # cs = star # star # g @ star # star # r" by simp
    have "filter (\<lambda>c. c \<noteq> star) (replace_bold (c # cs)) =
        filter (\<lambda>c. c \<noteq> star) g @ filter (\<lambda>c. c \<noteq> star) (replace_bold r)"
      using m by simp
    also have "\<dots> = filter (\<lambda>c. c \<noteq> star) g @ filter (\<lambda>c. c \<noteq> star) r"
      using 2(2)[OF m refl] by simp
    also have "\<dots> = filter (\<lambda>c. c \<noteq> star) (c # cs)"
      unfolding s by simp
    finally show ?thesis .
  qed
qed

lemma replace_bold_subseq: "subseq (replace_bold s) s"
proof (induction s rule: replace_bold.induct)
  case 1
  then show ?case by simp
next
  case (2 c cs)
  show ?case
  proof (cases "match_bold (c # cs)")
    case None
    with 2(1)[OF None] show ?thesis by simp
  next
    case (Some gr)
    obtain g r where gr: "gr = (g, r)" by (cases gr)
    with Some have m: "match_bold (c # cs) = Some (g, r)" by simp
    from match_bold_Some[OF m] have s: "c # cs = [star, star] @ g @ [star, star] @ r" by simp
    have "subseq (replace_bold r) ([star, star] @ r)"
      using 2(2)[OF m refl] by (rule subseq_drop_many)
    then have "subseq (g @ replace_bold r) (g @ [star, star] @ r)"
      by (simp only: subseq_append')
    then have "subseq (g @ replace_bold r) ([star, star] @ g @ [star, star] @ r)"
      by (rule subseq_drop_many)
    with m s show ?thesis by simp
  qed
qed

lemma find_close_exists:
  "\<forall>c\<in>set g. \<not> is_line_terminator c \<Longrightarrow> \<exists>g' r'. find_close (g @ star # star # r) = Some (g', r')"
proof (induction g)
  case Nil
  then show ?case by simp
next
  case (Cons c g)
  then obtain g' r' where "find_close (g @ star # star # r) = Some (g', r')" by auto
  with Cons.prems show ?case by auto
qed

lemma match_bold_None_iff: "match_bold s = None \<longleftrightarrow> \<not> starts_bold s"
proof
  assume n: "match_bold s = None"
  show "\<not> starts_bold s"
  proof
    assume "starts_bold s"
    then obtain g r where s: "s = [star, star] @ g @ [star, star] @ r"
      and g: "\<forall>c\<in>set g. \<not> is_line_terminator c"
      unfolding starts_bold_def by blast
    from find_close_exists[OF g, of r] obtain g' r' where "find_close (g @ star # star # r) = Some (g', r')"
      by blast
    with s have "match_bold s = Some (g', r')" by simp
    with n show False by simp
  qed
next
  assume ns: "\<not> starts_bold s"
  show "match_bold s = None"
  proof (cases "match_bold s")
    case None
    then show ?thesis .
  next
    case (Some gr)
    obtain g r where "gr = (g, r)" by (cases gr)
    with Some match_bold_Some[of s g r] have "starts_bold s"
      unfolding starts_bold_def by auto
    with ns show ?thesis by simp
  qed
qed

lemma starts_bold_shortest:
  "starts_bold s \<Longrightarrow>
     \<exists>g r. s = [star, star] @ g @ [star, star] @ r \<and> plain g \<and> (\<forall>c\<in>set g. \<not> is_line_terminator c)"
proof -
  assume "starts_bold s"
  then have "match_bold s \<noteq> None" by (simp add: match_bold_None_iff)
  then obtain g r where "match_bold s = Some (g, r)" by auto
  from match_bold_Some[OF this] show ?thesis by auto
qed

text \<open>
  C6 as stated fails: delimiters with a line terminator between them are not removed.
\<close>

theorem bold_across_lines_counterexample:
  "js ''**a\<newline>b**'' = [star, star] @ js ''a\<newline>b'' @ [star, star]
   \<and> cleanMarkdownBold (SStr (js ''**a\<newline>b**'')) = js ''**a\<newline>b**''
   \<and> cleanMarkdownBold (SStr (js ''**a\<newline>b**'')) \<noteq> js ''a\<newline>b''"
  by (simp add: text_eval replace_bold.simps)

text \<open>
  C6, amended. \<open>cleanMarkdownBold\<close> maps null, undefined and the empty string to the
  empty string. Where a bold span opens, its two delimiters are removed and its text is
  kept, the span being the shortest one that opens there; a code unit at which no span
  opens is kept as it is, an asterisk too. So only asterisks are ever removed: the result
  is a subsequence of the input with the same code units other than asterisks. The
  function is idempotent.
\<close>

theorem cleanMarkdownBold_normalizes:
  "cleanMarkdownBold SNull = [] \<and> cleanMarkdownBold SUndefined = [] \<and> cleanMarkdownBold (SStr []) = []
   \<and> (plain g \<and> (\<forall>c\<in>set g. \<not> is_line_terminator c) \<longrightarrow>
        cleanMarkdownBold (SStr ([star, star] @ g @ [star, star] @ rest)) =
          g @ cleanMarkdownBold (SStr rest))
   \<and> (\<not> starts_bold (c # cs) \<longrightarrow>
        cleanMarkdownBold (SStr (c # cs)) = c # cleanMarkdownBold (SStr cs))
   \<and> (starts_bold x \<longrightarrow>
        (\<exists>g r. x = [star, star] @ g @ [star, star] @ r \<and> plain g \<and>
               (\<forall>c\<in>set g. \<not> is_line_terminator c)))
   \<and> filter (\<lambda>c. c \<noteq> star) (cleanMarkdownBold (SStr x)) = filter (\<lambda>c. c \<noteq> star) x
   \<and> subseq (cleanMarkdownBold (SStr x)) x
   \<and> cleanMarkdownBold (SStr (cleanMarkdownBold a)) = cleanMarkdownBold a"
proof (intro conjI impI)
  assume a: "plain g \<and> (\<forall>c\<in>set g. \<not> is_line_terminator c)"
  then have "find_close (g @ star # star # rest) = Some (g, rest)"
    by (simp add: find_close_plain)
  then have "replace_bold ([star, star] @ g @ [star, star] @ rest) = g @ replace_bold rest"
    by simp
  moreover have "cleanMarkdownBold (SStr rest) = replace_bold rest"
    by simp
  ultimately show "cleanMarkdownBold (SStr ([star, star] @ g @ [star, star] @ rest)) =
          g @ cleanMarkdownBold (SStr rest)"
    by simp
next
  assume "\<not> starts_bold (c # cs)"
  then have "match_bold (c # cs) = None" by (simp add: match_bold_None_iff)
  then have "replace_bold (c # cs) = c # replace_bold cs" by simp
  moreover have "cleanMarkdownBold (SStr cs) = replace_bold cs" by simp
  ultimately show "cleanMarkdownBold (SStr (c # cs)) = c # cleanMarkdownBold (SStr cs)"
    by simp
next
  assume "starts_bold x"
  then show "\<exists>g r. x = [star, star] @ g @ [star, star] @ r \<and> plain g \<and>
               (\<forall>c\<in>set g. \<not> is_line_terminator c)"
    by (rule starts_bold_shortest)
next
  show "filter (\<lambda>c. c \<noteq> star) (cleanMarkdownBold (SStr x)) = filter (\<lambda>c. c \<noteq> star) x"
    by (simp add: replace_bold_keeps_others)
  show "subseq (cleanMarkdownBold (SStr x)) x"
    by (simp add: replace_bold_subseq)
  show "cleanMarkdownBold (SStr (cleanMarkdownBold a)) = cleanMarkdownBold a"
    by (cases a) (simp_all add: replace_bold_idem)
qed simp_all

theorem cleanMarkdownBold_normalizes_witness:
  "plain (js ''bold'') \<and> cleanMarkdownBold (SStr (js ''**bold** text'')) = js ''bold text''
   \<and> \<not> starts_bold (js ''**a'') \<and> \<not> starts_bold (js ''*a'') \<and> \<not> starts_bold (js ''a'')
   \<and> cleanMarkdownBold (SStr (js ''**a'')) = js ''**a''
   \<and> cleanMarkdownBold (SStr (cleanMarkdownBold (SStr (js ''**bold** text'')))) = js ''bold text''"
proof -
  note t = cleanMarkdownBold_normalizes
  have p: "plain (js ''bold'')" "\<forall>c\<in>set (js ''bold''). \<not> is_line_terminator c"
    by (simp_all add: text_eval)
  have s: "js ''**bold** text'' = [star, star] @ js ''bold'' @ [star, star] @ js '' text''"
    by (simp add: text_eval)
  have sp: "\<not> starts_bold (js '' text'')" "\<not> starts_bold (js ''text'')" "\<not> starts_bold (js ''ext'')"
    "\<not> starts_bold (js ''xt'')" "\<not> starts_bold (js ''t'')"
    "\<not> starts_bold (js ''**a'')" "\<not> starts_bold (js ''*a'')" "\<not> starts_bold (js ''a'')"
    by (simp_all add: match_bold_None_iff[symmetric] text_eval)
  have k: "\<And>c cs. \<not> starts_bold (c # cs) \<Longrightarrow> cleanMarkdownBold (SStr (c # cs)) = c # cleanMarkdownBold (SStr cs)"
    using t by blast
  have e0: "cleanMarkdownBold (SStr []) = []" using t by blast
  have r: "cleanMarkdownBold (SStr (js '' text'')) = js '' text''"
    using sp(1-5) k e0 by (simp add: js_def)
  have j: "js ''bold'' @ js '' text'' = js ''bold text''"
    by (simp add: js_def)
  from t[of "js ''bold''" "js '' text''"] p
  have e: "cleanMarkdownBold (SStr (js ''**bold** text'')) = js ''bold text''"
    unfolding s r by (simp add: j)
  have a: "cleanMarkdownBold (SStr (js ''**a'')) = js ''**a''"
    using sp(6-8) k e0 by (simp add: js_def)
  from t[where a = "SStr (js ''**bold** text'')"]
  have "cleanMarkdownBold (SStr (cleanMarkdownBold (SStr (js ''**bold** text'')))) =
      cleanMarkdownBold (SStr (js ''**bold** text''))"
    by blast
  with e p sp a show ?thesis by simp
qed

section \<open>Bullet extractor\<close>

lemma split_on_nonempty: "split_on sep s \<noteq> []"
  by (induction s) (auto split: list.splits)

lemma join_lines_Cons: "join_lines ((c # l) # ls) = c # join_lines (l # ls)"
  by (cases ls) simp_all

lemma join_split: "join_lines (split_on newline s) = s"
proof (induction s)
  case Nil
  then show ?case by simp
next
  case (Cons c cs)
  obtain l ls where sp: "split_on newline cs = l # ls"
    using split_on_nonempty[of newline cs] by (cases "split_on newline cs") auto
  show ?case
  proof (cases "c = newline")
    case True
    with Cons sp show ?thesis by simp
  next
    case False
    with Cons sp show ?thesis by (simp add: join_lines_Cons)
  qed
qed

lemma split_no_sep: "l \<in> set (split_on sep s) \<Longrightarrow> sep \<notin> set l"
proof (induction s arbitrary: l)
  case Nil
  then show ?case by simp
next
  case (Cons c cs)
  then show ?case
    by (cases "split_on sep cs") (auto split: if_splits)
qed

lemma lines_of_split: "lines_of text (split_on newline text)"
  unfolding lines_of_def by (auto simp: split_on_nonempty join_split dest: split_no_sep)

lemma trimmed_trim: "trimmed s (trim s)"
proof -
  let ?a = "takeWhile is_space s"
  let ?u = "dropWhile is_space s"
  let ?w = "dropWhile is_space (rev ?u)"
  let ?b = "rev (takeWhile is_space (rev ?u))"
  have t: "trim s = rev ?w" by (simp add: trim_def)
  have "rev ?w @ ?b = rev (takeWhile is_space (rev ?u) @ ?w)"
    by (simp only: rev_append)
  also have "\<dots> = rev (rev ?u)"
    by (simp only: takeWhile_dropWhile_id)
  finally have u: "?u = rev ?w @ ?b" by simp
  have "s = ?a @ ?u" by simp
  then have s: "s = ?a @ rev ?w @ ?b"
    using u by (simp only:)
  have a: "\<forall>c\<in>set ?a. is_space c" by (auto dest: set_takeWhileD)
  have b: "\<forall>c\<in>set ?b. is_space c" by (auto dest: set_takeWhileD)
  have e: "rev ?w = [] \<or> (\<not> is_space (hd (rev ?w)) \<and> \<not> is_space (last (rev ?w)))"
  proof (cases "?w = []")
    case True
    then show ?thesis by simp
  next
    case False
    then have l: "\<not> is_space (last (rev ?w))"
      using hd_dropWhile[of is_space "rev ?u"] by (simp add: last_rev)
    from False have "hd ?u = hd (rev ?w)"
      using u by (metis hd_append2 rev_is_Nil_conv)
    moreover from False u have "?u \<noteq> []"
      by (metis append_is_Nil_conv rev_is_Nil_conv)
    then have "\<not> is_space (hd ?u)" by (rule hd_dropWhile)
    ultimately show ?thesis using l by simp
  qed
  show ?thesis
    unfolding trimmed_def t using s a b e by blast
qed

lemma isBullet_iff: "isBullet l \<longleftrightarrow> bullet_line l"
proof -
  have 1: "take 1 l = [star] \<longleftrightarrow> (\<exists>r. l = star # r)" by (cases l) auto
  have 2: "take 1 l = [hyphen] \<longleftrightarrow> (\<exists>r. l = hyphen # r)" by (cases l) auto
  have nd: "\<not> is_digit dot" by (simp add: is_digit_def dot_def)
  have 3: "(takeWhile is_digit l \<noteq> [] \<and> take 1 (dropWhile is_digit l) = [dot]) \<longleftrightarrow>
      (\<exists>ds r. ds \<noteq> [] \<and> (\<forall>d\<in>set ds. is_digit d) \<and> l = ds @ dot # r)"
  proof
    assume a: "takeWhile is_digit l \<noteq> [] \<and> take 1 (dropWhile is_digit l) = [dot]"
    then obtain r where r: "dropWhile is_digit l = dot # r"
      by (cases "dropWhile is_digit l") auto
    have "l = takeWhile is_digit l @ dropWhile is_digit l" by simp
    with r have "l = takeWhile is_digit l @ dot # r" by simp
    moreover have "\<forall>d\<in>set (takeWhile is_digit l). is_digit d" by (auto dest: set_takeWhileD)
    ultimately show "\<exists>ds r. ds \<noteq> [] \<and> (\<forall>d\<in>set ds. is_digit d) \<and> l = ds @ dot # r"
      using a by blast
  next
    assume "\<exists>ds r. ds \<noteq> [] \<and> (\<forall>d\<in>set ds. is_digit d) \<and> l = ds @ dot # r"
    then obtain ds r where d: "ds \<noteq> []" "\<forall>d\<in>set ds. is_digit d" "l = ds @ dot # r" by blast
    from d(2) nd have "takeWhile is_digit (ds @ dot # r) = ds"
      by (simp add: takeWhile_append2)
    moreover from d(2) nd have "dropWhile is_digit (ds @ dot # r) = dot # r"
      by (simp add: dropWhile_append2)
    ultimately show "takeWhile is_digit l \<noteq> [] \<and> take 1 (dropWhile is_digit l) = [dot]"
      using d(1,3) by simp
  qed
  show ?thesis
    unfolding isBullet_def bullet_line_def 1 2 3 ..
qed

lemma unmarked_strip: "unmarked l (strip_markers l)"
proof -
  have "l = takeWhile is_marker l @ dropWhile is_marker l" by simp
  moreover have "\<forall>c\<in>set (takeWhile is_marker l). is_marker c" by (auto dest: set_takeWhileD)
  moreover have "dropWhile is_marker l = [] \<or> \<not> is_marker (hd (dropWhile is_marker l))"
    using hd_dropWhile[of is_marker l] by blast
  moreover have "trimmed (dropWhile is_marker l) (strip_markers l)"
    unfolding strip_markers_def by (rule trimmed_trim)
  ultimately show ?thesis unfolding unmarked_def by blast
qed

lemma nonempty_lines_Nil: "nonempty_lines [] = []"
  by (simp add: nonempty_lines_def trim_def)

lemma extractKeyPoints_sets:
  "extractKeyPoints text =
     take 6 (if preferred_set text \<noteq> [] then preferred_set text else fallback_set text)"
proof (cases "text = []")
  case True
  then show ?thesis
    by (simp add: extractKeyPoints_def preferred_set_def fallback_set_def nonempty_lines_Nil)
next
  case False
  have raw: "filter (\<lambda>line. length line > 0) (map trim (split_on newline text)) = nonempty_lines text"
    by (simp add: nonempty_lines_def)
  have bl: "filter isBullet (nonempty_lines text) = filter bullet_line (nonempty_lines text)"
    by (rule filter_cong) (simp_all add: isBullet_iff)
  have cb: "filter (\<lambda>line. length line \<ge> 5) (map strip_markers (filter isBullet (nonempty_lines text)))
      = preferred_set text"
    unfolding preferred_set_def bl by (rule refl)
  have fb: "filter (\<lambda>line. length line \<ge> 5) (map strip_markers (nonempty_lines text))
      = fallback_set text"
    unfolding fallback_set_def by (rule refl)
  show ?thesis
    using False unfolding extractKeyPoints_def Let_def raw cb fb
    by simp
qed

lemma preferred_subseq: "subseq (preferred_set text) (map strip_markers (nonempty_lines text))"
proof -
  have "subseq (map strip_markers [l \<leftarrow> nonempty_lines text. bullet_line l])
          (map strip_markers (nonempty_lines text))"
    by (intro subseq_map subseq_filter_left)
  moreover have "subseq (preferred_set text) (map strip_markers [l \<leftarrow> nonempty_lines text. bullet_line l])"
    unfolding preferred_set_def by (rule subseq_filter_left)
  ultimately show ?thesis by (rule subseq_order.trans[rotated])
qed

lemma fallback_subseq: "subseq (fallback_set text) (map strip_markers (nonempty_lines text))"
  unfolding fallback_set_def by (rule subseq_filter_left)

lemma take_subseq: "subseq xs ys \<Longrightarrow> subseq (take n xs) ys"
proof -
  assume a: "subseq xs ys"
  have "subseq (take n xs) xs"
    by (intro prefix_imp_subseq take_is_prefix)
  from this a show ?thesis by (rule subseq_order.trans)
qed

lemmas keypoints_eval = extractKeyPoints_def trim_def isBullet_def strip_markers_def

text \<open>
  C5. For every input, \<open>extractKeyPoints\<close> returns the first 6 items at most of the
  preferred set when that set is not empty and of the fallback set otherwise; the result
  never has more than 6 items, follows the order of the source lines, and every item has
  5 code units or more. The sets are built from the lines of the text, each trimmed; the
  bullet lines are those that start with an asterisk, a hyphen or digits and a dot; an
  item is its line without the leading markers, trimmed.
\<close>

theorem extractKeyPoints_first_six:
  "extractKeyPoints text =
     take 6 (if preferred_set text \<noteq> [] then preferred_set text else fallback_set text)
   \<and> length (extractKeyPoints text) \<le> 6
   \<and> subseq (extractKeyPoints text) (map strip_markers (nonempty_lines text))
   \<and> (\<forall>k\<in>set (extractKeyPoints text). 5 \<le> length k)
   \<and> lines_of text (split_on newline text)
   \<and> trimmed s (trim s)
   \<and> (isBullet l \<longleftrightarrow> bullet_line l)
   \<and> unmarked l (strip_markers l)"
proof (intro conjI ballI)
  show e: "extractKeyPoints text =
     take 6 (if preferred_set text \<noteq> [] then preferred_set text else fallback_set text)"
    by (rule extractKeyPoints_sets)
  show "length (extractKeyPoints text) \<le> 6"
    unfolding e by simp
  show "subseq (extractKeyPoints text) (map strip_markers (nonempty_lines text))"
    unfolding e by (simp add: take_subseq preferred_subseq fallback_subseq)
  show "lines_of text (split_on newline text)" by (rule lines_of_split)
  show "trimmed s (trim s)" by (rule trimmed_trim)
  show "isBullet l \<longleftrightarrow> bullet_line l" by (rule isBullet_iff)
  show "unmarked l (strip_markers l)" by (rule unmarked_strip)
  fix k assume "k \<in> set (extractKeyPoints text)"
  then have "k \<in> set (preferred_set text) \<or> k \<in> set (fallback_set text)"
    unfolding e by (auto dest: in_set_takeD split: if_splits)
  then show "5 \<le> length k"
    by (auto simp: preferred_set_def fallback_set_def)
qed

theorem extractKeyPoints_first_six_witness:
  "preferred_set report_mixed = [js ''Improve aeration'', js ''Increase pH buffering'']
   \<and> extractKeyPoints report_mixed = [js ''Improve aeration'', js ''Increase pH buffering'']
   \<and> preferred_set report_prose = []
   \<and> fallback_set report_prose = [js ''Short.'', js ''A fine long line about site conditions.'']
   \<and> extractKeyPoints report_prose = [js ''Short.'', js ''A fine long line about site conditions.'']
   \<and> extractKeyPoints report_eight =
       [js ''aaaaa'', js ''bbbbb'', js ''ccccc'', js ''ddddd'', js ''eeeee'', js ''fffff'']"
proof -
  note t = extractKeyPoints_first_six
  have b: "\<And>l. bullet_line l = isBullet l" using t by blast
  have sets: "\<And>text. extractKeyPoints text =
     take 6 (if preferred_set text \<noteq> [] then preferred_set text else fallback_set text)"
    using t by blast
  have p1: "preferred_set report_mixed = [js ''Improve aeration'', js ''Increase pH buffering'']"
    by (simp add: preferred_set_def nonempty_lines_def b report_mixed_def keypoints_eval text_eval)
  have p2: "preferred_set report_prose = []"
    by (simp add: preferred_set_def nonempty_lines_def b report_prose_def keypoints_eval text_eval)
  have f2: "fallback_set report_prose = [js ''Short.'', js ''A fine long line about site conditions.'']"
    by (simp add: fallback_set_def nonempty_lines_def report_prose_def keypoints_eval text_eval)
  have p3: "preferred_set report_eight =
      [js ''aaaaa'', js ''bbbbb'', js ''ccccc'', js ''ddddd'', js ''eeeee'', js ''fffff'', js ''ggggg'', js ''hhhhh'']"
    by (simp add: preferred_set_def nonempty_lines_def b report_eight_def keypoints_eval text_eval)
  have e1: "extractKeyPoints report_mixed = [js ''Improve aeration'', js ''Increase pH buffering'']"
    unfolding sets p1 by simp
  have e2: "extractKeyPoints report_prose = [js ''Short.'', js ''A fine long line about site conditions.'']"
    unfolding sets p2 f2 by simp
  have e3: "extractKeyPoints report_eight =
       [js ''aaaaa'', js ''bbbbb'', js ''ccccc'', js ''ddddd'', js ''eeeee'', js ''fffff'']"
    unfolding sets p3 by simp
  show ?thesis by (intro conjI p1 e1 p2 f2 e2 e3)
qed

section \<open>Report file name\<close>

lemma sanitize_safe_prefix: "list_all is_safe w \<Longrightarrow> sanitize (w @ t) = w @ sanitize t"
  by (induction w) simp_all

lemma sanitize_run:
  assumes "run \<noteq> []" and "list_all (\<lambda>c. \<not> is_safe c) run" and "rest = [] \<or> is_safe (hd rest)"
  shows "sanitize (run @ rest) = underscore # sanitize rest"
proof -
  from assms(1) obtain c run' where run: "run = c # run'" by (cases run) auto
  with assms(2) have c: "\<not> is_safe c" and r': "\<And>x. x \<in> set run' \<Longrightarrow> \<not> is_safe x"
    by (auto simp: list_all_iff)
  have "dropWhile (\<lambda>d. \<not> is_safe d) (run' @ rest) = dropWhile (\<lambda>d. \<not> is_safe d) rest"
    using r' by simp
  also have "\<dots> = rest"
    using assms(3) by (cases rest) auto
  finally show ?thesis using c by (simp add: run)
qed

lemma sanitize_Nil_iff: "sanitize s = [] \<longleftrightarrow> s = []"
  by (cases s) simp_all

lemma locationLabel_nonempty: "locationLabel st \<noteq> []"
  by (simp add: locationLabel_def js_def)

text \<open>
  C9 as stated fails: for the label \<open>Chennai, India\<close> the saved file is
  \<open>spirulina_site_report_Chennai_India.pdf\<close>, while replacing each unsafe code unit by
  an underscore would give two underscores.
\<close>

theorem replace_each_counterexample:
  "handleDownloadReport dashboard_chennai = Some (js ''spirulina_site_report_Chennai_India.pdf'')
   \<and> js ''spirulina_site_report_'' @ replace_each (locationLabel dashboard_chennai) @ js ''.pdf''
       = js ''spirulina_site_report_Chennai__India.pdf''
   \<and> handleDownloadReport dashboard_chennai \<noteq>
       Some (js ''spirulina_site_report_'' @ replace_each (locationLabel dashboard_chennai) @ js ''.pdf'')"
proof -
  have a: "handleDownloadReport dashboard_chennai = Some (js ''spirulina_site_report_Chennai_India.pdf'')"
    by (simp add: handleDownloadReport_def report_filename_def locationLabel_def dashboard_chennai_def text_eval)
  have b: "js ''spirulina_site_report_'' @ replace_each (locationLabel dashboard_chennai) @ js ''.pdf''
       = js ''spirulina_site_report_Chennai__India.pdf''"
    by (simp add: replace_each_def locationLabel_def dashboard_chennai_def text_eval)
  have c: "js ''spirulina_site_report_Chennai_India.pdf'' \<noteq> js ''spirulina_site_report_Chennai__India.pdf''"
    by (simp add: js_def)
  show ?thesis unfolding a b using c by simp
qed

text \<open>
  C9, amended. When a report is loaded the saved file is named
  \<open>spirulina_site_report_<s>.pdf\<close>, where \<open><s>\<close> is the sanitized label, or \<open>site\<close> when
  that is empty. Sanitizing keeps word code units and hyphens and replaces each maximal
  run of other code units by one underscore.
\<close>

theorem report_filename_runs:
  "handleDownloadReport st =
     (if phdReport st = [] then None else Some (report_filename (locationLabel st)))
   \<and> report_filename label =
       js ''spirulina_site_report_'' @ (if sanitize label = [] then js ''site'' else sanitize label)
         @ js ''.pdf''
   \<and> (list_all is_safe w \<longrightarrow> sanitize w = w)
   \<and> (list_all is_safe w \<and> run \<noteq> [] \<and> list_all (\<lambda>c. \<not> is_safe c) run \<and>
        (rest = [] \<or> is_safe (hd rest)) \<longrightarrow>
        sanitize (w @ run @ rest) = w @ [underscore] @ sanitize rest)"
proof (intro conjI impI)
  show "handleDownloadReport st =
     (if phdReport st = [] then None else Some (report_filename (locationLabel st)))"
    by (simp add: handleDownloadReport_def)
  show "report_filename label =
       js ''spirulina_site_report_'' @ (if sanitize label = [] then js ''site'' else sanitize label)
         @ js ''.pdf''"
    by (simp add: report_filename_def Let_def)
  show "sanitize w = w" if "list_all is_safe w"
    using sanitize_safe_prefix[OF that, of "[]"] by simp
  show "sanitize (w @ run @ rest) = w @ [underscore] @ sanitize rest"
    if "list_all is_safe w \<and> run \<noteq> [] \<and> list_all (\<lambda>c. \<not> is_safe c) run \<and>
        (rest = [] \<or> is_safe (hd rest))"
    using that by (simp add: sanitize_safe_prefix sanitize_run)
qed

theorem report_filename_runs_witness:
  "handleDownloadReport dashboard_chennai = Some (js ''spirulina_site_report_Chennai_India.pdf'')
   \<and> sanitize (js ''Chennai'' @ js '', '' @ js ''India'') = js ''Chennai'' @ [underscore] @ js ''India''"
proof -
  note t = report_filename_runs[of dashboard_chennai "js ''Chennai, India''" "js ''India''" "js '', ''" "[]"]
  note u = report_filename_runs[of dashboard_chennai "js ''Chennai, India''" "js ''Chennai''" "js '', ''" "js ''India''"]
  have l: "locationLabel dashboard_chennai = js ''Chennai, India''" "phdReport dashboard_chennai \<noteq> []"
    by (simp_all add: locationLabel_def dashboard_chennai_def js_def)
  have h: "list_all is_safe (js ''Chennai'')" "js '', '' \<noteq> []" "list_all (\<lambda>c. \<not> is_safe c) (js '', '')"
    "is_safe (hd (js ''India''))" "list_all is_safe (js ''India'')"
    by (simp_all add: text_eval)
  from t h have i: "sanitize (js ''India'') = js ''India''" by blast
  from u h have s: "sanitize (js ''Chennai'' @ js '', '' @ js ''India'') = js ''Chennai'' @ [underscore] @ js ''India''"
    unfolding i by blast
  have j: "js ''Chennai, India'' = js ''Chennai'' @ js '', '' @ js ''India''"
    by (simp add: js_def)
  have k: "js ''spirulina_site_report_'' @ (js ''Chennai'' @ [underscore] @ js ''India'') @ js ''.pdf''
      = js ''spirulina_site_report_Chennai_India.pdf''"
    by (simp add: js_def underscore_def)
  from t l have "handleDownloadReport dashboard_chennai =
      Some (js ''spirulina_site_report_'' @ (if sanitize (js ''Chennai, India'') = [] then js ''site'' else sanitize (js ''Chennai, India'')) @ js ''.pdf'')"
    by simp
  then have "handleDownloadReport dashboard_chennai = Some (js ''spirulina_site_report_Chennai_India.pdf'')"
    unfolding j s using k by (simp add: js_def)
  with s show ?thesis by simp
qed

end
